theory Spec2Isabelle
  imports Main "HOL-Library.Word"
begin

unbundle bit_operations_syntax

section \<open>Package hue: terminal colorization with ECMA-48 colour codes\<close>

text \<open>
  The package exists in two revisions. The later one (unexported struct \<open>hue\<close> with the
  setters \<open>SetFg\<close> and \<open>SetBg\<close>, the escape formats as constants, and the
  \<open>RegexpWriter\<close>) is modelled under the source's names. The earlier one (exported
  struct \<open>Hue\<close> with the fields \<open>Fg\<close> and \<open>Bg\<close>, and \<open>isUnset\<close>) is modelled
  with the prefix \<open>Hue_\<close> on every name that both revisions declare.

  Go strings and byte slices are lists of bytes. A Go \<open>int\<close> is an \<open>int\<close> here, and
  the one arithmetic operation of the package (adding 10 to a background code) wraps to 64
  bits. Pointers are taken to be non-nil, and a struct reached through a pointer is the
  value it holds when the function runs; a function that writes through the pointer returns
  the new value.
\<close>

subsection \<open>Bytes and the fragment of package fmt that the code uses\<close>

type_synonym byte = "8 word"
type_synonym bytes = "byte list"

definition go_int :: "int \<Rightarrow> int" where
  \<comment> \<open>the value of a 64-bit \<open>int\<close> expression after wrap-around\<close>
  "go_int x = (x + 2 ^ 63) mod 2 ^ 64 - 2 ^ 63"

function digits :: "nat \<Rightarrow> bytes" where
  \<comment> \<open>decimal digits, most significant first; \<open>0x30\<close> is the character 0\<close>
  "digits n = (if n < 10 then [of_nat (48 + n)]
               else digits (n div 10) @ [of_nat (48 + n mod 10)])"
  by pat_completeness auto
termination
  by (relation "measure id") auto

declare digits.simps [simp del]

definition fmt_d :: "int \<Rightarrow> bytes" where
  \<comment> \<open>the verb \<open>%d\<close> on an int; \<open>0x2D\<close> is the minus sign\<close>
  "fmt_d i = (if i < 0 then 0x2D # digits (nat (- i)) else digits (nat i))"

definition fmt_c :: "byte \<Rightarrow> bytes" where
  \<comment> \<open>the verb \<open>%c\<close> on a byte: the UTF-8 encoding of the code point with that number\<close>
  "fmt_c b = (if b < 0x80 then [b]
              else [0xC0 OR drop_bit 6 b, 0x80 OR (b AND 0x3F)])"

fun fmt_Sprintf :: "bytes \<Rightarrow> bytes option \<Rightarrow> bytes option" where
  \<comment> \<open>\<open>fmt.Sprintf(format, a)\<close> for one string operand \<open>a\<close> (\<open>Some a\<close> until a verb has
      consumed it) and formats whose only verb is \<open>%s\<close> (\<open>0x25\<close>, \<open>0x73\<close>); \<open>None\<close> is
      a format outside this fragment (another verb, a flag, a missing or an extra operand)\<close>
  "fmt_Sprintf [] arg = (case arg of None \<Rightarrow> Some [] | Some a \<Rightarrow> None)"
| "fmt_Sprintf [c] arg =
     (if c = 0x25 then None else map_option ((#) c) (fmt_Sprintf [] arg))"
| "fmt_Sprintf (c # d # cs) arg =
     (if c = 0x25 then
        (if d = 0x73 then
           (case arg of
              Some a \<Rightarrow> map_option ((@) a) (fmt_Sprintf cs None)
            | None \<Rightarrow> None)
         else None)
      else map_option ((#) c) (fmt_Sprintf (d # cs) arg))"

subsection \<open>Colour codes and escape formats (later revision)\<close>

definition Black :: int where "Black = 30"
definition Red :: int where "Red = 31"
definition Green :: int where "Green = 32"
definition Brown :: int where "Brown = 33"
definition Blue :: int where "Blue = 34"
definition Magenta :: int where "Magenta = 35"
definition Cyan :: int where "Cyan = 36"
definition White :: int where "White = 37"
definition Underline :: int where "Underline = 38"
definition Default :: int where "Default = 39"

definition ASCIIFmt :: "int \<Rightarrow> int \<Rightarrow> bytes" where
  \<comment> \<open>\<open>"\033[%d;%dm"\<close> applied to two ints\<close>
  "ASCIIFmt f b = [0x1B, 0x5B] @ fmt_d f @ [0x3B] @ fmt_d b @ [0x6D]"

definition ASCIIReset :: bytes where
  \<comment> \<open>\<open>"\033[0m"\<close>\<close>
  "ASCIIReset = [0x1B, 0x5B, 0x30, 0x6D]"

definition ASCIIFmtReset :: "int \<Rightarrow> int \<Rightarrow> bytes \<Rightarrow> bytes" where
  \<comment> \<open>\<open>"\033[%d;%dm%v\033[0m"\<close>; the third operand is given by its \<open>%v\<close> rendering,
      which for a string is the string\<close>
  "ASCIIFmtReset f b a = [0x1B, 0x5B] @ fmt_d f @ [0x3B] @ fmt_d b @ [0x6D] @ a @ [0x1B, 0x5B, 0x30, 0x6D]"

subsection \<open>The struct hue and the type String (later revision)\<close>

record hue =
  fg :: int
  bg :: int

definition hue_SetFg :: "hue \<Rightarrow> int \<Rightarrow> hue" where
  "hue_SetFg h c = h\<lparr>fg := c\<rparr>"

definition hue_SetBg :: "hue \<Rightarrow> int \<Rightarrow> hue" where
  "hue_SetBg h c = h\<lparr>bg := go_int (c + 10)\<rparr>"

definition New :: "int \<Rightarrow> int \<Rightarrow> hue" where
  "New f b = hue_SetBg (hue_SetFg \<lparr>fg = 0, bg = 0\<rparr> f) b"

definition hue_Fg :: "hue \<Rightarrow> int" where
  "hue_Fg h = fg h"

definition hue_Bg :: "hue \<Rightarrow> int" where
  "hue_Bg h = bg h"

datatype panic =
  CantDecode bytes nat \<comment> \<open>the panic of Decode, with the string and its length\<close>
| SliceBounds \<comment> \<open>slice bounds out of range\<close>
| IndexOutOfRange nat nat \<comment> \<open>index out of range, with the index and the length\<close>
| NilDereference \<comment> \<open>a method called through a nil pointer\<close>

definition slice :: "bytes \<Rightarrow> int \<Rightarrow> int \<Rightarrow> panic + bytes" where
  \<comment> \<open>\<open>b[lo:hi]\<close>\<close>
  "slice b lo hi =
     (if 0 \<le> lo \<and> lo \<le> hi \<and> hi \<le> int (length b)
      then Inr (drop (nat lo) (take (nat hi) b)) else Inl SliceBounds)"

definition String_Decode :: "bytes \<Rightarrow> panic + bytes" where
  \<comment> \<open>the same text in both revisions\<close>
  "String_Decode hs =
     (let l = length hs in
      if l < 12 then Inl (CantDecode hs l)
      else slice hs 8 (int (length hs) - 4))"

definition Encode :: "hue \<Rightarrow> bytes \<Rightarrow> bytes" where
  "Encode h a = ASCIIFmtReset (hue_Fg h) (hue_Bg h) a"

definition hue_Sprintf :: "hue \<Rightarrow> bytes \<Rightarrow> bytes \<Rightarrow> bytes option" where
  "hue_Sprintf h format a = fmt_Sprintf (Encode h format) (Some a)"

subsection \<open>The earlier revision: the struct Hue\<close>

definition Hue_Default :: int where
  \<comment> \<open>the earlier list of codes has no Underline, so Default is 38 there\<close>
  "Hue_Default = 38"

record Hue =
  Fg :: int
  Bg :: int

definition isUnset :: "int \<Rightarrow> bool" where
  "isUnset i = (i = 0)"

definition Hue_Encode :: "Hue \<Rightarrow> bytes \<Rightarrow> Hue \<times> bytes" where
  \<comment> \<open>returns the struct behind the pointer as the call leaves it, and the String\<close>
  "Hue_Encode h a =
     (let h1 = (if isUnset (Fg h) then h\<lparr>Fg := Hue_Default\<rparr> else h);
          h2 = (if isUnset (Bg h1) then h1\<lparr>Bg := Hue_Default\<rparr> else h1)
      in (h2, ASCIIFmtReset (Fg h2) (go_int (Bg h2 + 10)) a))"

definition Hue_Sprintf :: "Hue \<Rightarrow> bytes \<Rightarrow> bytes \<Rightarrow> Hue \<times> bytes option" where
  "Hue_Sprintf h format a =
     (let (h', s) = Hue_Encode h format in (h', fmt_Sprintf s (Some a)))"

subsection \<open>Output sinks\<close>

datatype error = Error string

text \<open>
  An \<open>io.Writer\<close> is its \<open>Write\<close> method acting on the state \<open>'w\<close> of everything
  the program can write to: it takes the state and the bytes and returns the new state, the
  count and the error (\<open>None\<close> is nil). The process's standard output is one such writer,
  given to the functions that print on it.
\<close>

type_synonym 'w io_Writer = "'w \<Rightarrow> bytes \<Rightarrow> 'w \<times> int \<times> error option"

definition fmt_Fprintf :: "'w io_Writer \<Rightarrow> bytes \<Rightarrow> 'w \<Rightarrow> 'w \<times> int \<times> error option" where
  \<comment> \<open>\<open>fmt.Fprintf(w, format, ...)\<close> with the formatted text: one call of \<open>w.Write\<close>\<close>
  "fmt_Fprintf wr text world = wr world text"

definition fmt_Print :: "'w io_Writer \<Rightarrow> bytes \<Rightarrow> 'w \<Rightarrow> 'w" where
  \<comment> \<open>\<open>fmt.Print\<close> writes on standard output; the caller drops the count and the error\<close>
  "fmt_Print os_Stdout text world = fst (os_Stdout world text)"

record world =
  sink :: "bytes list" \<comment> \<open>the calls of Write that a buffer has received, in order\<close>
  stdout :: bytes \<comment> \<open>the bytes printed on standard output\<close>

definition sink_Write :: "world io_Writer" where
  \<comment> \<open>a writer other than standard output that accepts everything\<close>
  "sink_Write w b = (w\<lparr>sink := sink w @ [b]\<rparr>, int (length b), None)"

definition stdout_Write :: "world io_Writer" where
  "stdout_Write w b = (w\<lparr>stdout := stdout w @ b\<rparr>, int (length b), None)"

definition closed_Write :: "world io_Writer" where
  \<comment> \<open>a writer that refuses every write\<close>
  "closed_Write w b = (w, 0, Some (Error ''closed''))"

subsection \<open>Writer: one hue for everything written\<close>

record 'w Writer =
  Writer_hue :: hue
  Writer_wrapped :: "'w io_Writer"

definition NewWriter :: "'w io_Writer \<Rightarrow> hue \<Rightarrow> 'w Writer" where
  "NewWriter w h = \<lparr>Writer_hue = h, Writer_wrapped = w\<rparr>"

definition Writer_SetHue :: "'w Writer \<Rightarrow> hue \<Rightarrow> 'w Writer" where
  "Writer_SetHue w h = w\<lparr>Writer_hue := h\<rparr>"

definition Writer_Write :: "'w Writer \<Rightarrow> bytes \<Rightarrow> 'w \<Rightarrow> ('w \<times> int \<times> error option) option" where
  \<comment> \<open>\<open>w.wrapped.Write([]byte(w.Sprintf("%s", string(p))))\<close>; \<open>None\<close> only if the
      format left the modelled fragment of \<open>fmt.Sprintf\<close>\<close>
  "Writer_Write w p world =
     (case hue_Sprintf (Writer_hue w) [0x25, 0x73] p of
        None \<Rightarrow> None
      | Some s \<Rightarrow> Some (Writer_wrapped w world s))"

definition Writer_WriteString :: "'w Writer \<Rightarrow> bytes \<Rightarrow> 'w \<Rightarrow> ('w \<times> int \<times> error option) option" where
  "Writer_WriteString w s world = Writer_Write w s world"

text \<open>The earlier revision: the Writer holds a pointer to a Hue, which Encode may change.\<close>

record 'w Hue_Writer =
  Hue_Writer_Hue :: Hue
  Hue_Writer_wrapped :: "'w io_Writer"

definition Hue_Writer_Write ::
  "'w Hue_Writer \<Rightarrow> bytes \<Rightarrow> 'w \<Rightarrow> ('w Hue_Writer \<times> 'w \<times> int \<times> error option) option" where
  "Hue_Writer_Write w p world =
     (case Hue_Sprintf (Hue_Writer_Hue w) [0x25, 0x73] p of
        (h', None) \<Rightarrow> None
      | (h', Some s) \<Rightarrow> Some (w\<lparr>Hue_Writer_Hue := h'\<rparr>, Hue_Writer_wrapped w world s))"

subsection \<open>RegexpWriter: colouring by rules\<close>

text \<open>
  A compiled regular expression is given by its method \<open>FindAllIndex(p, -1)\<close>: the list of
  the spans \<open>(w[0], w[1])\<close> of its matches in \<open>p\<close>, as byte offsets.
\<close>

record rule =
  rule_hue :: hue
  rule_FindAllIndex :: "bytes \<Rightarrow> (nat \<times> nat) list"

record 'w RegexpWriter =
  rules :: "rule list"
  wrapped :: "'w io_Writer"

definition NewRegexpWriter :: "'w io_Writer \<Rightarrow> 'w RegexpWriter" where
  "NewRegexpWriter w = \<lparr>rules = [], wrapped = w\<rparr>"

definition RegexpWriter_AddRule ::
  "'w RegexpWriter \<Rightarrow> hue \<Rightarrow> (bytes \<Rightarrow> (nat \<times> nat) list) \<Rightarrow> 'w RegexpWriter" where
  "RegexpWriter_AddRule w h re =
     w\<lparr>rules := rules w @ [\<lparr>rule_hue = h, rule_FindAllIndex = re\<rparr>]\<rparr>"

definition RegexpWriter_FlushRules :: "'w RegexpWriter \<Rightarrow> 'w RegexpWriter" where
  "RegexpWriter_FlushRules w = w\<lparr>rules := []\<rparr>"

function fill_span :: "byte list \<Rightarrow> byte \<Rightarrow> nat \<Rightarrow> nat \<Rightarrow> panic + byte list" where
  \<comment> \<open>\<open>for j := w[0]; j < w[1]; j++ { huemap[j] = byte(i) }\<close>, from \<open>j\<close> on\<close>
  "fill_span huemap c j e =
     (if j < e then
        (if j < length huemap then fill_span (huemap[j := c]) c (Suc j) e
         else Inl (IndexOutOfRange j (length huemap)))
      else Inr huemap)"
  by pat_completeness auto
termination
  by (relation "measure (\<lambda>(huemap, c, j, e). e - j)") auto

declare fill_span.simps [simp del]

fun fill_spans :: "byte list \<Rightarrow> byte \<Rightarrow> (nat \<times> nat) list \<Rightarrow> panic + byte list" where
  \<comment> \<open>\<open>for _, w := range x\<close>\<close>
  "fill_spans huemap c [] = Inr huemap"
| "fill_spans huemap c (w # x) =
     (case fill_span huemap c (fst w) (snd w) of
        Inl e \<Rightarrow> Inl e
      | Inr huemap' \<Rightarrow> fill_spans huemap' c x)"

function rules_loop ::
  "rule list \<Rightarrow> bytes \<Rightarrow> nat \<Rightarrow> byte list \<Rightarrow> hue option list
     \<Rightarrow> panic + (byte list \<times> hue option list)" where
  \<comment> \<open>\<open>for i := 1; i < len(rulemap); i++\<close>, from \<open>i\<close> on; \<open>byte(i)\<close> keeps the low 8 bits\<close>
  "rules_loop rs p i huemap rulemap =
     (if i < length rulemap then
        (if i - 1 < length rs then
           (let r = rs ! (i - 1);
                x = rule_FindAllIndex r p;
                rulemap' = rulemap[i := Some (rule_hue r)]
            in case fill_spans huemap (of_nat i) x of
                 Inl e \<Rightarrow> Inl e
               | Inr huemap' \<Rightarrow> rules_loop rs p (Suc i) huemap' rulemap')
         else Inl (IndexOutOfRange (i - 1) (length rs)))
      else Inr (huemap, rulemap))"
  by pat_completeness auto
termination
  by (relation "measure (\<lambda>(rs, p, i, huemap, rulemap). length rulemap - i)") auto

declare rules_loop.simps [simp del]

definition Write_maps :: "rule list \<Rightarrow> bytes \<Rightarrow> panic + (byte list \<times> hue option list)" where
  \<comment> \<open>the first part of \<open>RegexpWriter.Write\<close>: \<open>huemap\<close> and \<open>rulemap\<close>; an entry of
      \<open>rulemap\<close> is nil (\<open>None\<close>) until the loop sets it\<close>
  "Write_maps rs p =
     (let huemap = replicate (length p) 0;
          rulemap = (replicate (length rs + 1) None)[0 := Some \<lparr>fg = 0, bg = 0\<rparr>]
      in rules_loop rs p 1 huemap rulemap)"

definition switch_hue ::
  "'w io_Writer \<Rightarrow> hue option list \<Rightarrow> byte \<Rightarrow> int \<Rightarrow> 'w \<Rightarrow> panic + ('w \<times> int \<times> error option)" where
  \<comment> \<open>\<open>th := rulemap[hue]\<close> and the Fprintf of \<open>ASCIIFmt\<close>; with an error, \<open>n\<close> is
      returned as it was\<close>
  "switch_hue wr rulemap h n world =
     (if unat h < length rulemap then
        (case rulemap ! unat h of
           None \<Rightarrow> Inl NilDereference
         | Some th \<Rightarrow>
             (case fmt_Fprintf wr (ASCIIFmt (hue_Fg th) (hue_Bg th)) world of
                (world', nb, Some err) \<Rightarrow> Inr (world', n, Some err)
              | (world', nb, None) \<Rightarrow> Inr (world', n + nb, None)))
      else Inl (IndexOutOfRange (unat h) (length rulemap)))"

function write_loop ::
  "'w io_Writer \<Rightarrow> hue option list \<Rightarrow> byte list \<Rightarrow> bytes \<Rightarrow> nat \<Rightarrow> byte \<Rightarrow> int \<Rightarrow> 'w
     \<Rightarrow> panic + ('w \<times> int \<times> error option)" where
  \<comment> \<open>\<open>for i := range p\<close>, from \<open>i\<close> on, with the current \<open>hue\<close> and \<open>n\<close>; an error
      in the result is the early return\<close>
  "write_loop wr rulemap huemap p i hue n world =
     (if i < length p then
        (if i < length huemap then
           (case (if huemap ! i \<noteq> hue then switch_hue wr rulemap (huemap ! i) n world
                  else Inr (world, n, None)) of
              Inl e \<Rightarrow> Inl e
            | Inr (world1, n1, Some err) \<Rightarrow> Inr (world1, n1, Some err)
            | Inr (world1, n1, None) \<Rightarrow>
                (case fmt_Fprintf wr (fmt_c (p ! i)) world1 of
                   (world2, nb, Some err) \<Rightarrow> Inr (world2, n1, Some err)
                 | (world2, nb, None) \<Rightarrow>
                     write_loop wr rulemap huemap p (Suc i)
                       (if huemap ! i \<noteq> hue then huemap ! i else hue) (n1 + nb) world2))
         else Inl (IndexOutOfRange i (length huemap)))
      else Inr (world, n, None))"
  by pat_completeness auto
termination
  by (relation "measure (\<lambda>(wr, rulemap, huemap, p, i, hue, n, world). length p - i)") auto

declare write_loop.simps [simp del]

definition RegexpWriter_Write ::
  "'w io_Writer \<Rightarrow> 'w RegexpWriter \<Rightarrow> bytes \<Rightarrow> 'w \<Rightarrow> panic + ('w \<times> int \<times> error option)" where
  \<comment> \<open>the first argument is the process's standard output, where \<open>fmt.Print\<close> writes\<close>
  "RegexpWriter_Write os_Stdout w p world =
     (case Write_maps (rules w) p of
        Inl e \<Rightarrow> Inl e
      | Inr (huemap, rulemap) \<Rightarrow>
          (case write_loop (wrapped w) rulemap huemap p 0 0 0 world of
             Inl e \<Rightarrow> Inl e
           | Inr (world1, n, Some err) \<Rightarrow> Inr (world1, n, Some err)
           | Inr (world1, n, None) \<Rightarrow> Inr (fmt_Print os_Stdout ASCIIReset world1, n, None)))"

definition RegexpWriter_WriteString ::
  "'w io_Writer \<Rightarrow> 'w RegexpWriter \<Rightarrow> bytes \<Rightarrow> 'w \<Rightarrow> panic + ('w \<times> int \<times> error option)" where
  "RegexpWriter_WriteString os_Stdout w s world = RegexpWriter_Write os_Stdout w s world"

subsection \<open>What the claims about RegexpWriter.Write speak of\<close>

definition covers :: "rule \<Rightarrow> bytes \<Rightarrow> nat \<Rightarrow> bool" where
  \<comment> \<open>a match span of the rule's pattern in \<open>p\<close> contains the position\<close>
  "covers r p pos = (\<exists>w \<in> set (rule_FindAllIndex r p). fst w \<le> pos \<and> pos < snd w)"

definition spans_ok :: "rule list \<Rightarrow> bytes \<Rightarrow> bool" where
  \<comment> \<open>what the regexp package guarantees: a match ends inside the buffer\<close>
  "spans_ok rs p = (\<forall>r \<in> set rs. \<forall>w \<in> set (rule_FindAllIndex r p). snd w \<le> length p)"

definition prev_hue :: "byte list \<Rightarrow> nat \<Rightarrow> byte" where
  \<comment> \<open>the colour index of the byte before position \<open>i\<close>; index 0 before the first byte\<close>
  "prev_hue huemap i = (if i = 0 then 0 else huemap ! (i - 1))"


definition escape_of :: "rule list \<Rightarrow> byte \<Rightarrow> bytes" where
  \<comment> \<open>the sequence for a colour index: \<open>ESC [ 0 ; 0 m\<close> for index 0, and the
      enter-colour sequence of the hue of rule number \<open>k\<close> for an index \<open>k\<close> above 0\<close>
  "escape_of rs k =
     (if k = 0 then [0x1B, 0x5B, 0x30, 0x3B, 0x30, 0x6D]
      else ASCIIFmt (hue_Fg (rule_hue (rs ! (unat k - 1)))) (hue_Bg (rule_hue (rs ! (unat k - 1)))))"

definition sent_at :: "rule list \<Rightarrow> byte list \<Rightarrow> bytes \<Rightarrow> nat \<Rightarrow> bytes list" where
  \<comment> \<open>the writes for position \<open>i\<close>: a sequence if the colour index changes there, then the byte\<close>
  "sent_at rs huemap p i =
     (if huemap ! i \<noteq> prev_hue huemap i then [escape_of rs (huemap ! i)] else [])
     @ [fmt_c (p ! i)]"


definition prefix_codes :: "bytes \<Rightarrow> bytes \<times> bytes" where
  \<comment> \<open>the texts of the two codes of an escape prefix \<open>ESC [ fg ; bg m\<close>: what stands
      between \<open>ESC [\<close> and the first \<open>;\<close>, and between that \<open>;\<close> and the next \<open>m\<close>\<close>
  "prefix_codes s =
     (takeWhile (\<lambda>c. c \<noteq> 0x3B) (drop 2 s),
      takeWhile (\<lambda>c. c \<noteq> 0x6D) (drop 1 (dropWhile (\<lambda>c. c \<noteq> 0x3B) (drop 2 s))))"

section \<open>Formatting lemmas\<close>

lemma digits_two:
  assumes "10 \<le> n" and "n < 100"
  shows "length (digits n) = 2"
proof -
  have "n div 10 < 10" using assms by simp
  then have "length (digits (n div 10)) = 1"
    by (subst digits.simps) simp
  moreover have "digits n = digits (n div 10) @ [of_nat (48 + n mod 10)]"
    using assms by (subst digits.simps) simp
  ultimately show ?thesis by simp
qed

lemma fmt_d_two: "10 \<le> i \<Longrightarrow> i < 100 \<Longrightarrow> length (fmt_d i) = 2"
  by (simp add: fmt_d_def digits_two)

lemma slice_middle:
  assumes "length pre = 8" and "length suf = 4"
  shows "slice (pre @ a @ suf) 8 (int (length (pre @ a @ suf)) - 4) = Inr a"
  using assms by (simp add: slice_def)

lemma decode_encoded:
  assumes "length (fmt_d f) = 2" and "length (fmt_d b) = 2"
  shows "String_Decode (ASCIIFmtReset f b a) = Inr a"
proof -
  define pre where "pre = [0x1B, 0x5B] @ fmt_d f @ [0x3B] @ fmt_d b @ [0x6D :: byte]"
  define suf where "suf = [0x1B, 0x5B, 0x30, 0x6D :: byte]"
  have e: "ASCIIFmtReset f b a = pre @ a @ suf"
    by (simp add: ASCIIFmtReset_def pre_def suf_def)
  have l: "length pre = 8" "length suf = 4"
    using assms by (simp_all add: pre_def suf_def)
  have "\<not> length (pre @ a @ suf) < 12" using l by simp
  then show ?thesis
    unfolding e String_Decode_def Let_def using slice_middle [OF l] by simp
qed

lemma digit_byte: "k < 10 \<Longrightarrow> unat (of_nat (48 + k) :: byte) = 48 + k"
  by (subst unat_of_nat) simp

lemma digit_not_percent:
  assumes "k < 10" shows "(of_nat (48 + k) :: byte) \<noteq> 0x25"
proof
  assume "(of_nat (48 + k) :: byte) = 0x25"
  then have "unat (of_nat (48 + k) :: byte) = unat (0x25 :: byte)" by (rule arg_cong)
  then have "48 + k = unat (0x25 :: byte)" by (simp only: digit_byte [OF assms])
  then show False by simp
qed

lemma digits_no_percent: "0x25 \<notin> set (digits n)"
proof (induction n rule: digits.induct)
  case (1 n)
  show ?case
  proof (cases "n < 10")
    case True
    then show ?thesis using digit_not_percent [of n]
      by (subst digits.simps) auto
  next
    case False
    have "n mod 10 < 10" by simp
    then have "(of_nat (48 + n mod 10) :: byte) \<noteq> 0x25" by (rule digit_not_percent)
    then show ?thesis using False 1
      by (subst digits.simps) auto
  qed
qed

lemma fmt_d_no_percent: "0x25 \<notin> set (fmt_d i)"
  by (simp add: fmt_d_def digits_no_percent)

lemma fmt_Sprintf_literal: "0x25 \<notin> set cs \<Longrightarrow> fmt_Sprintf cs None = Some cs"
  by (induction cs "None :: bytes option" rule: fmt_Sprintf.induct) auto

lemma fmt_Sprintf_s:
  "0x25 \<notin> set pre \<Longrightarrow> 0x25 \<notin> set suf \<Longrightarrow>
   fmt_Sprintf (pre @ [0x25, 0x73] @ suf) (Some a) = Some (pre @ a @ suf)"
proof (induction pre)
  case Nil
  then show ?case by (simp add: fmt_Sprintf_literal)
next
  case (Cons c pre)
  then show ?case by (cases pre) (auto simp: fmt_Sprintf_literal)
qed

lemma ASCIIFmtReset_split: "ASCIIFmtReset f b a = ASCIIFmt f b @ a @ ASCIIReset"
  by (simp add: ASCIIFmtReset_def ASCIIFmt_def ASCIIReset_def)

lemma ASCIIFmt_no_percent: "0x25 \<notin> set (ASCIIFmt f b)"
  by (simp add: ASCIIFmt_def fmt_d_no_percent)

lemma Sprintf_ASCIIFmtReset:
  "fmt_Sprintf (ASCIIFmtReset f b [0x25, 0x73]) (Some a) = Some (ASCIIFmtReset f b a)"
  unfolding ASCIIFmtReset_split
  by (rule fmt_Sprintf_s) (simp_all add: ASCIIFmt_no_percent ASCIIReset_def)

lemma hue_Sprintf_s: "hue_Sprintf h [0x25, 0x73] a = Some (Encode h a)"
  by (simp add: hue_Sprintf_def Encode_def Sprintf_ASCIIFmtReset)

lemma Hue_Sprintf_s: "Hue_Sprintf h [0x25, 0x73] a = (fst (Hue_Encode h a), Some (snd (Hue_Encode h a)))"
  by (simp add: Hue_Sprintf_def Hue_Encode_def Let_def Sprintf_ASCIIFmtReset)

lemma digits_nonempty: "digits n \<noteq> []"
  by (subst digits.simps) simp

lemma fmt_d_nonempty: "fmt_d i \<noteq> []"
  by (simp add: fmt_d_def digits_nonempty)

lemma slice_nth:
  "hi \<le> length hs \<Longrightarrow> drop lo (take hi hs) = map ((!) hs) [lo..<hi]"
  by (rule nth_equalityI) auto

section \<open>Decoding and encoding\<close>

text \<open>
  C7. Decode fails (it panics with the length error) exactly when the encoded value is
  shorter than 12 bytes. Otherwise it succeeds and returns the bytes at the positions 8 up to
  \<open>len - 4\<close>: the value is 8 leading bytes, the result, and 4 trailing bytes, whatever those
  bytes are. On exactly 12 bytes the result is the empty text.
\<close>

theorem Decode_length_law:
  "((\<exists>e. String_Decode hs = Inl e) \<longleftrightarrow> length hs < 12)
   \<and> (length hs < 12 \<longrightarrow> String_Decode hs = Inl (CantDecode hs (length hs)))
   \<and> (12 \<le> length hs \<longrightarrow>
        String_Decode hs = Inr (map ((!) hs) [8..<length hs - 4])
        \<and> hs = take 8 hs @ map ((!) hs) [8..<length hs - 4] @ drop (length hs - 4) hs)
   \<and> (length hs = 12 \<longrightarrow> String_Decode hs = Inr [])"
proof -
  have short: "length hs < 12 \<Longrightarrow> String_Decode hs = Inl (CantDecode hs (length hs))"
    by (simp add: String_Decode_def)
  have long: "String_Decode hs = Inr (map ((!) hs) [8..<length hs - 4])" if "12 \<le> length hs"
  proof -
    have "String_Decode hs = Inr (drop 8 (take (length hs - 4) hs))"
      using that by (simp add: String_Decode_def slice_def nat_diff_distrib)
    then show ?thesis by (simp add: slice_nth)
  qed
  have parts: "hs = take 8 hs @ map ((!) hs) [8..<length hs - 4] @ drop (length hs - 4) hs"
    if "12 \<le> length hs"
  proof -
    have "map ((!) hs) [8..<length hs - 4] = drop 8 (take (length hs - 4) hs)"
      by (simp add: slice_nth)
    moreover have "take 8 hs = take 8 (take (length hs - 4) hs)"
      using that by (auto simp: min_def)
    ultimately have "take 8 hs @ map ((!) hs) [8..<length hs - 4] = take (length hs - 4) hs"
      by (simp only: append_take_drop_id)
    then show ?thesis by (simp only: append_assoc [symmetric] append_take_drop_id)
  qed
  have iff: "(\<exists>e. String_Decode hs = Inl e) \<longleftrightarrow> length hs < 12"
    using short long by (cases "length hs < 12") auto
  have twelve: "length hs = 12 \<Longrightarrow> String_Decode hs = Inr []"
    using long by simp
  show ?thesis using short long parts iff twelve by blast
qed

theorem Decode_length_law_witness:
  "String_Decode [0x1B, 0x5B, 0x33, 0x31, 0x3B, 0x34, 0x39, 0x6D, 0x1B, 0x5B, 0x30, 0x6D] = Inr []
   \<and> String_Decode [0x1B, 0x5B, 0x33, 0x31, 0x3B, 0x34, 0x39, 0x6D, 0x78, 0x1B, 0x5B, 0x30, 0x6D] = Inr [0x78]
   \<and> String_Decode [0x1B, 0x5B, 0x30, 0x3B, 0x30, 0x6D, 0x78, 0x1B, 0x5B, 0x30, 0x6D]
       = Inl (CantDecode [0x1B, 0x5B, 0x30, 0x3B, 0x30, 0x6D, 0x78, 0x1B, 0x5B, 0x30, 0x6D] 11)"
  using Decode_length_law [of "[0x1B, 0x5B, 0x33, 0x31, 0x3B, 0x34, 0x39, 0x6D, 0x1B, 0x5B, 0x30, 0x6D]"]
    Decode_length_law [of "[0x1B, 0x5B, 0x33, 0x31, 0x3B, 0x34, 0x39, 0x6D, 0x78, 0x1B, 0x5B, 0x30, 0x6D]"]
    Decode_length_law [of "[0x1B, 0x5B, 0x30, 0x3B, 0x30, 0x6D, 0x78, 0x1B, 0x5B, 0x30, 0x6D]"]
  by (simp add: upt_rec)

lemma go_int_small: "- (2 ^ 63) \<le> x \<Longrightarrow> x < 2 ^ 63 \<Longrightarrow> go_int x = x"
  by (simp add: go_int_def)

text \<open>
  C6. For every text \<open>T\<close> and every foreground and background among the defined colour
  codes (Black to Default), decoding the encoding of \<open>T\<close> gives \<open>T\<close> back. This holds
  for a hue set with SetFg and SetBg (in particular one made by New), and for a Hue of the
  earlier revision, whose codes end at its own Default.
\<close>

theorem Decode_Encode_roundtrip:
  "(Black \<le> f \<and> f \<le> Default \<and> Black \<le> b \<and> b \<le> Default \<longrightarrow>
      String_Decode (Encode (hue_SetBg (hue_SetFg h f) b) T) = Inr T
      \<and> String_Decode (Encode (New f b) T) = Inr T)
   \<and> (Black \<le> Fg H \<and> Fg H \<le> Hue_Default \<and> Black \<le> Bg H \<and> Bg H \<le> Hue_Default \<longrightarrow>
      String_Decode (snd (Hue_Encode H T)) = Inr T)"
proof (intro conjI impI)
  assume a: "Black \<le> f \<and> f \<le> Default \<and> Black \<le> b \<and> b \<le> Default"
  then have g: "go_int (b + 10) = b + 10"
    by (intro go_int_small) (simp_all add: Black_def Default_def)
  have "length (fmt_d f) = 2" "length (fmt_d (b + 10)) = 2"
    using a by (simp_all add: fmt_d_two Black_def Default_def)
  then have "String_Decode (ASCIIFmtReset f (b + 10) T) = Inr T"
    by (rule decode_encoded)
  then show "String_Decode (Encode (hue_SetBg (hue_SetFg h f) b) T) = Inr T"
    and "String_Decode (Encode (New f b) T) = Inr T"
    by (simp_all add: Encode_def New_def hue_SetBg_def hue_SetFg_def hue_Fg_def hue_Bg_def g)
next
  assume a: "Black \<le> Fg H \<and> Fg H \<le> Hue_Default \<and> Black \<le> Bg H \<and> Bg H \<le> Hue_Default"
  then have g: "go_int (Bg H + 10) = Bg H + 10"
    by (intro go_int_small) (simp_all add: Black_def Hue_Default_def)
  have "length (fmt_d (Fg H)) = 2" "length (fmt_d (Bg H + 10)) = 2"
    using a by (simp_all add: fmt_d_two Black_def Hue_Default_def)
  then have "String_Decode (ASCIIFmtReset (Fg H) (Bg H + 10) T) = Inr T"
    by (rule decode_encoded)
  moreover have "Fg H \<noteq> 0" "Bg H \<noteq> 0" using a by (auto simp: Black_def)
  ultimately show "String_Decode (snd (Hue_Encode H T)) = Inr T"
    by (simp add: Hue_Encode_def isUnset_def g)
qed

theorem Decode_Encode_roundtrip_witness:
  "String_Decode (Encode (New Green Default) [0x1B, 0x5B, 0x30, 0x6D]) = Inr [0x1B, 0x5B, 0x30, 0x6D]
   \<and> String_Decode (snd (Hue_Encode \<lparr>Fg = Red, Bg = White\<rparr> [0x54])) = Inr [0x54]"
  using Decode_Encode_roundtrip [of Green Default undefined "[0x1B, 0x5B, 0x30, 0x6D]" "\<lparr>Fg = Red, Bg = White\<rparr>"]
    Decode_Encode_roundtrip [of Green Default undefined "[0x54]" "\<lparr>Fg = Red, Bg = White\<rparr>"]
  by (simp add: Black_def Red_def Green_def White_def Default_def Hue_Default_def)


lemma fmt_d_0: "fmt_d 0 = [0x30]"
  by (simp add: fmt_d_def digits.simps)

lemma digit_byte_eq: "k < 10 \<Longrightarrow> c < 256 \<Longrightarrow> (of_nat (48 + k) :: byte) = of_nat c \<longleftrightarrow> 48 + k = c"
proof
  assume k: "k < 10" and c: "c < 256" and e: "(of_nat (48 + k) :: byte) = of_nat c"
  from e have "unat (of_nat (48 + k) :: byte) = unat (of_nat c :: byte)" by (rule arg_cong)
  moreover have "unat (of_nat c :: byte) = c" using c by (subst unat_of_nat) simp
  ultimately show "48 + k = c" by (simp only: digit_byte [OF k])
qed simp

lemma digits_chars: "c \<in> set (digits n) \<Longrightarrow> \<exists>k < 10. c = of_nat (48 + k)"
proof (induction n rule: digits.induct)
  case (1 n)
  show ?case
  proof (cases "n < 10")
    case True
    then have "digits n = [of_nat (48 + n)]" by (subst digits.simps) simp
    with 1(2) have "c = of_nat (48 + n)" by simp
    with True show ?thesis by blast
  next
    case False
    then have "digits n = digits (n div 10) @ [of_nat (48 + n mod 10)]"
      by (subst digits.simps) simp
    with 1(2) have "c \<in> set (digits (n div 10)) \<or> c = of_nat (48 + n mod 10)"
      by (simp only: set_append set_simps Un_iff insert_iff empty_iff) blast
    then show ?thesis
    proof
      assume "c \<in> set (digits (n div 10))"
      then show ?thesis using 1(1) [OF False] by blast
    next
      assume c: "c = of_nat (48 + n mod 10)"
      have "n mod 10 < 10" by simp
      with c show ?thesis by blast
    qed
  qed
qed

lemma digits_no_sep: "0x3B \<notin> set (digits n)" "0x6D \<notin> set (digits n)"
proof -
  have "c \<notin> set (digits n)" if "c = of_nat m" "59 \<le> m" "m < 256" for c :: byte and m
  proof
    assume "c \<in> set (digits n)"
    then obtain k where k: "k < 10" "c = of_nat (48 + k)" using digits_chars by blast
    then have "48 + k = m" using that digit_byte_eq [of k m] by simp
    then show False using k that by simp
  qed
  from this [of "0x3B" 59] this [of "0x6D" 109]
  show "0x3B \<notin> set (digits n)" "0x6D \<notin> set (digits n)" by simp_all
qed

lemma fmt_d_no_sep: "0x3B \<notin> set (fmt_d i)" "0x6D \<notin> set (fmt_d i)"
  by (simp_all add: fmt_d_def digits_no_sep)

lemma prefix_codes_ASCIIFmtReset: "prefix_codes (ASCIIFmtReset f b a) = (fmt_d f, fmt_d b)"
proof -
  let ?P = "\<lambda>c :: byte. c \<noteq> 0x3B" and ?Q = "\<lambda>c :: byte. c \<noteq> 0x6D"
  have f: "\<And>x. x \<in> set (fmt_d f) \<Longrightarrow> ?P x" and b: "\<And>x. x \<in> set (fmt_d b) \<Longrightarrow> ?Q x"
    using fmt_d_no_sep(1) [of f] fmt_d_no_sep(2) [of b] by auto
  have 1: "takeWhile ?P (fmt_d f @ 0x3B # r) = fmt_d f" for r
    using takeWhile_append2 [of "fmt_d f" ?P "0x3B # r", OF f] by simp
  have 2: "dropWhile ?P (fmt_d f @ 0x3B # r) = 0x3B # r" for r
    using dropWhile_append2 [of "fmt_d f" ?P "0x3B # r"] f by simp
  have 3: "takeWhile ?Q (fmt_d b @ 0x6D # r) = fmt_d b" for r
    using takeWhile_append2 [of "fmt_d b" ?Q "0x6D # r", OF b] by simp
  show ?thesis
    by (simp add: prefix_codes_def ASCIIFmtReset_def 1 2 3)
qed

lemma digits_zero_iff: "digits n = [0x30] \<longleftrightarrow> n = 0"
proof (cases "n < 10")
  case True
  then have d: "digits n = [of_nat (48 + n)]" by (subst digits.simps) simp
  have "(of_nat (48 + n) :: byte) = of_nat 48 \<longleftrightarrow> 48 + n = 48"
    using True by (intro digit_byte_eq) simp_all
  then show ?thesis by (simp add: d)
next
  case False
  then have "digits n = digits (n div 10) @ [of_nat (48 + n mod 10)]"
    by (subst digits.simps) simp
  then have "2 \<le> length (digits n)"
    using digits_nonempty [of "n div 10"] by (cases "digits (n div 10)") auto
  then show ?thesis using False by auto
qed

lemma fmt_d_zero_iff: "fmt_d i = [0x30] \<longleftrightarrow> i = 0"
proof (cases "i < 0")
  case True
  then show ?thesis using digits_nonempty by (auto simp: fmt_d_def)
next
  case False
  then show ?thesis by (auto simp: fmt_d_def digits_zero_iff)
qed

lemma go_int_wrapped: "2 ^ 63 \<le> y \<Longrightarrow> y < 2 ^ 63 + 2 ^ 64 \<Longrightarrow> go_int y = y - 2 ^ 64"
proof -
  assume a: "2 ^ 63 \<le> y" "y < 2 ^ 63 + 2 ^ 64"
  have "y + 2 ^ 63 = (y - 2 ^ 63) + 2 ^ 64" by simp
  then have "(y + 2 ^ 63) mod 2 ^ 64 = ((y - 2 ^ 63) + 2 ^ 64) mod 2 ^ 64" by (simp only:)
  also have "\<dots> = (y - 2 ^ 63) mod 2 ^ 64" by (simp only: mod_add_self2)
  also have "\<dots> = y - 2 ^ 63" using a by (intro mod_pos_pos_trivial) simp_all
  finally show ?thesis by (simp add: go_int_def)
qed

lemma go_int_plus_10_nonzero:
  assumes "x \<noteq> - 10" and "- (2 ^ 63) \<le> x" and "x < 2 ^ 63"
  shows "go_int (x + 10) \<noteq> 0"
proof (cases "x + 10 < 2 ^ 63")
  case True
  then have "go_int (x + 10) = x + 10" using assms by (intro go_int_small) simp_all
  then show ?thesis using assms(1) by simp
next
  case False
  then have "go_int (x + 10) = x + 10 - 2 ^ 64" using assms by (intro go_int_wrapped) simp_all
  then show ?thesis using assms(3) by simp
qed

lemma Hue_Encode_snd:
  "snd (Hue_Encode H a)
     = ASCIIFmtReset (if Fg H = 0 then Hue_Default else Fg H)
         (go_int ((if Bg H = 0 then Hue_Default else Bg H) + 10)) a"
  by (simp add: Hue_Encode_def isUnset_def)

text \<open>
  C8, as stated, fails. The Encode of the later revision has no test for an unset code, so a
  hue made by \<open>New(0, Default)\<close> is printed with the foreground code 0. In the earlier
  revision, a Hue with an unset Fg and the Bg -10 is printed with the background code 0: the
  10 added to Bg makes it so, and Bg is not the unset value, so nothing replaces it.
\<close>

theorem Encode_zero_code_counterexample:
  "hue_Fg (New 0 Default) = 0
   \<and> Encode (New 0 Default) [0x78]
       = [0x1B, 0x5B, 0x30, 0x3B, 0x34, 0x39, 0x6D, 0x78, 0x1B, 0x5B, 0x30, 0x6D]
   \<and> prefix_codes (Encode (New 0 Default) [0x78]) = ([0x30], [0x34, 0x39])
   \<and> Fg \<lparr>Fg = 0, Bg = - 10\<rparr> = 0
   \<and> snd (Hue_Encode \<lparr>Fg = 0, Bg = - 10\<rparr> [0x78])
       = [0x1B, 0x5B, 0x33, 0x38, 0x3B, 0x30, 0x6D, 0x78, 0x1B, 0x5B, 0x30, 0x6D]
   \<and> prefix_codes (snd (Hue_Encode \<lparr>Fg = 0, Bg = - 10\<rparr> [0x78])) = ([0x33, 0x38], [0x30])"
  by code_simp

text \<open>
  C8, amended. In the earlier revision (struct Hue, with isUnset), for every Hue and every
  text, Encode replaces an Fg or Bg that is the unset value 0 by Default before it formats,
  and prints any other value as it is (the background plus 10). So the foreground code in
  the emitted prefix is never the zero code, and the background code is never the zero code
  unless Bg is -10; in particular, when each field is unset or a defined colour code, the
  prefix holds a foreground code from 30 to 38 and a background code from 40 to 48. The
  Encode of the later revision (struct hue) prints the stored fg and bg as they are, with no
  substitution.
\<close>

theorem Encode_unset_substitution:
  "snd (Hue_Encode H a)
     = ASCIIFmtReset (if Fg H = 0 then Hue_Default else Fg H)
         (go_int ((if Bg H = 0 then Hue_Default else Bg H) + 10)) a
   \<and> (Fg H = 0 \<longrightarrow> fst (prefix_codes (snd (Hue_Encode H a))) = fmt_d Hue_Default)
   \<and> (Bg H = 0 \<longrightarrow> snd (prefix_codes (snd (Hue_Encode H a))) = fmt_d (Hue_Default + 10))
   \<and> (Fg H \<noteq> 0 \<longrightarrow> fst (prefix_codes (snd (Hue_Encode H a))) = fmt_d (Fg H))
   \<and> (Bg H \<noteq> 0 \<longrightarrow> snd (prefix_codes (snd (Hue_Encode H a))) = fmt_d (go_int (Bg H + 10)))
   \<and> fst (prefix_codes (snd (Hue_Encode H a))) \<noteq> [0x30]
   \<and> (Bg H \<noteq> - 10 \<and> - (2 ^ 63) \<le> Bg H \<and> Bg H < 2 ^ 63 \<longrightarrow>
        snd (prefix_codes (snd (Hue_Encode H a))) \<noteq> [0x30])
   \<and> ((Fg H = 0 \<or> Black \<le> Fg H \<and> Fg H \<le> Hue_Default)
        \<and> (Bg H = 0 \<or> Black \<le> Bg H \<and> Bg H \<le> Hue_Default) \<longrightarrow>
        (\<exists>f b. prefix_codes (snd (Hue_Encode H a)) = (fmt_d f, fmt_d b)
           \<and> 30 \<le> f \<and> f \<le> 38 \<and> 40 \<le> b \<and> b \<le> 48))
   \<and> prefix_codes (Encode h a) = (fmt_d (fg h), fmt_d (bg h))"
proof -
  let ?f = "if Fg H = 0 then Hue_Default else Fg H"
  let ?b = "go_int ((if Bg H = 0 then Hue_Default else Bg H) + 10)"
  have s: "snd (Hue_Encode H a) = ASCIIFmtReset ?f ?b a" by (rule Hue_Encode_snd)
  have c: "prefix_codes (snd (Hue_Encode H a)) = (fmt_d ?f, fmt_d ?b)"
    unfolding s by (rule prefix_codes_ASCIIFmtReset)
  have g48: "go_int (Hue_Default + 10) = Hue_Default + 10"
    by (simp add: go_int_def Hue_Default_def)
  have 1: "Fg H = 0 \<longrightarrow> fst (prefix_codes (snd (Hue_Encode H a))) = fmt_d Hue_Default"
    by (simp add: c)
  have 2: "Bg H = 0 \<longrightarrow> snd (prefix_codes (snd (Hue_Encode H a))) = fmt_d (Hue_Default + 10)"
    by (simp add: c g48)
  have 3: "Fg H \<noteq> 0 \<longrightarrow> fst (prefix_codes (snd (Hue_Encode H a))) = fmt_d (Fg H)"
    by (simp add: c)
  have 4: "Bg H \<noteq> 0 \<longrightarrow> snd (prefix_codes (snd (Hue_Encode H a))) = fmt_d (go_int (Bg H + 10))"
    by (simp add: c)
  have "?f \<noteq> 0" by (simp add: Hue_Default_def)
  then have 5: "fst (prefix_codes (snd (Hue_Encode H a))) \<noteq> [0x30]"
    by (simp add: c fmt_d_zero_iff)
  have 6: "Bg H \<noteq> - 10 \<and> - (2 ^ 63) \<le> Bg H \<and> Bg H < 2 ^ 63 \<longrightarrow>
        snd (prefix_codes (snd (Hue_Encode H a))) \<noteq> [0x30]"
  proof
    assume a: "Bg H \<noteq> - 10 \<and> - (2 ^ 63) \<le> Bg H \<and> Bg H < 2 ^ 63"
    have "?b \<noteq> 0"
    proof (cases "Bg H = 0")
      case True
      then show ?thesis by (simp add: g48) (simp add: Hue_Default_def)
    next
      case False
      then show ?thesis using a go_int_plus_10_nonzero [of "Bg H"] by simp
    qed
    then show "snd (prefix_codes (snd (Hue_Encode H a))) \<noteq> [0x30]"
      by (simp add: c fmt_d_zero_iff)
  qed
  have 7: "(Fg H = 0 \<or> Black \<le> Fg H \<and> Fg H \<le> Hue_Default)
        \<and> (Bg H = 0 \<or> Black \<le> Bg H \<and> Bg H \<le> Hue_Default) \<longrightarrow>
        (\<exists>f b. prefix_codes (snd (Hue_Encode H a)) = (fmt_d f, fmt_d b)
           \<and> 30 \<le> f \<and> f \<le> 38 \<and> 40 \<le> b \<and> b \<le> 48)"
  proof
    assume a: "(Fg H = 0 \<or> Black \<le> Fg H \<and> Fg H \<le> Hue_Default)
        \<and> (Bg H = 0 \<or> Black \<le> Bg H \<and> Bg H \<le> Hue_Default)"
    then have f: "30 \<le> ?f \<and> ?f \<le> 38" by (auto simp: Black_def Hue_Default_def)
    let ?x = "if Bg H = 0 then Hue_Default else Bg H"
    have x: "30 \<le> ?x \<and> ?x \<le> 38" using a by (auto simp: Black_def Hue_Default_def)
    then have "go_int (?x + 10) = ?x + 10" by (intro go_int_small) simp_all
    then have "40 \<le> ?b \<and> ?b \<le> 48" using x by simp
    with f c show "\<exists>f b. prefix_codes (snd (Hue_Encode H a)) = (fmt_d f, fmt_d b)
           \<and> 30 \<le> f \<and> f \<le> 38 \<and> 40 \<le> b \<and> b \<le> 48" by blast
  qed
  have 8: "prefix_codes (Encode h a) = (fmt_d (fg h), fmt_d (bg h))"
    by (simp add: Encode_def hue_Fg_def hue_Bg_def prefix_codes_ASCIIFmtReset)
  from s 1 2 3 4 5 6 7 8 show ?thesis by blast
qed

theorem Encode_unset_substitution_witness:
  "snd (Hue_Encode \<lparr>Fg = 0, Bg = 0\<rparr> [0x78])
     = [0x1B, 0x5B, 0x33, 0x38, 0x3B, 0x34, 0x38, 0x6D, 0x78, 0x1B, 0x5B, 0x30, 0x6D]
   \<and> fst (prefix_codes (snd (Hue_Encode \<lparr>Fg = 0, Bg = 0\<rparr> [0x78]))) = [0x33, 0x38]
   \<and> snd (prefix_codes (snd (Hue_Encode \<lparr>Fg = 0, Bg = 0\<rparr> [0x78]))) = [0x34, 0x38]"
proof -
  note t = Encode_unset_substitution [of "\<lparr>Fg = 0, Bg = 0\<rparr>" "[0x78]" "\<lparr>fg = 0, bg = 0\<rparr>"]
  have z: "Fg \<lparr>Fg = 0, Bg = 0\<rparr> = 0" "Bg \<lparr>Fg = 0, Bg = 0\<rparr> = 0" by simp_all
  have d: "fmt_d Hue_Default = [0x33, 0x38]" "fmt_d (Hue_Default + 10) = [0x34, 0x38]"
    by code_simp+
  have 1: "snd (Hue_Encode \<lparr>Fg = 0, Bg = 0\<rparr> [0x78])
     = [0x1B, 0x5B, 0x33, 0x38, 0x3B, 0x34, 0x38, 0x6D, 0x78, 0x1B, 0x5B, 0x30, 0x6D]"
    using t [THEN conjunct1]
    by (simp add: Hue_Default_def go_int_def ASCIIFmtReset_def fmt_d_def digits.simps)
  have 2: "fst (prefix_codes (snd (Hue_Encode \<lparr>Fg = 0, Bg = 0\<rparr> [0x78]))) = [0x33, 0x38]"
    using t [THEN conjunct2, THEN conjunct1, THEN mp, OF z(1)] by (simp only: d)
  have 3: "snd (prefix_codes (snd (Hue_Encode \<lparr>Fg = 0, Bg = 0\<rparr> [0x78]))) = [0x34, 0x38]"
    using t [THEN conjunct2, THEN conjunct2, THEN conjunct1, THEN mp, OF z(2)] by (simp only: d)
  from 1 2 3 show ?thesis by (intro conjI)
qed

text \<open>
  C10. For a Hue with a zero Fg or a zero Bg, Encode (earlier revision) writes through its
  pointer: after the call each zero field holds Default, the struct differs from what the
  caller passed, and the next Encode on it finds Default there and leaves it as it is.
\<close>

theorem Hue_Encode_mutates:
  assumes "Fg H = 0 \<or> Bg H = 0"
  shows "fst (Hue_Encode H a)
           = \<lparr>Fg = (if Fg H = 0 then Hue_Default else Fg H),
              Bg = (if Bg H = 0 then Hue_Default else Bg H)\<rparr>
         \<and> fst (Hue_Encode H a) \<noteq> H
         \<and> Hue_Encode (fst (Hue_Encode H a)) b
             = (fst (Hue_Encode H a),
                ASCIIFmtReset (if Fg H = 0 then Hue_Default else Fg H)
                  (go_int ((if Bg H = 0 then Hue_Default else Bg H) + 10)) b)"
proof -
  obtain f g where H: "H = \<lparr>Fg = f, Bg = g\<rparr>" by (cases H) auto
  show ?thesis using assms unfolding H
    by (auto simp: Hue_Encode_def isUnset_def Hue_Default_def)
qed

theorem Hue_Encode_mutates_witness:
  "fst (Hue_Encode \<lparr>Fg = 0, Bg = Red\<rparr> [0x78]) = \<lparr>Fg = Hue_Default, Bg = Red\<rparr>
   \<and> fst (Hue_Encode \<lparr>Fg = 0, Bg = Red\<rparr> [0x78]) \<noteq> \<lparr>Fg = 0, Bg = Red\<rparr>"
  using Hue_Encode_mutates [of "\<lparr>Fg = 0, Bg = Red\<rparr>" "[0x78]" "[]"]
  by (simp add: Red_def Hue_Default_def)

section \<open>Writer\<close>

lemma length_Encode: "length (Encode h p) = length p + length (fmt_d (hue_Fg h)) + length (fmt_d (hue_Bg h)) + 8"
  by (simp add: Encode_def ASCIIFmtReset_def)

lemma length_fmt_d: "1 \<le> length (fmt_d i)"
  using fmt_d_nonempty [of i] by (cases "fmt_d i") auto

lemma length_Hue_Encode: "int (length p) + 10 \<le> int (length (snd (Hue_Encode H p)))"
proof -
  let ?f = "if Fg H = 0 then Hue_Default else Fg H"
  let ?b = "go_int ((if Bg H = 0 then Hue_Default else Bg H) + 10)"
  have "length (ASCIIFmtReset ?f ?b p) = length p + length (fmt_d ?f) + length (fmt_d ?b) + 8"
    by (simp add: ASCIIFmtReset_def)
  then show ?thesis
    using length_fmt_d [of ?f] length_fmt_d [of ?b] unfolding Hue_Encode_snd by simp
qed


text \<open>
  C9. For every buffer \<open>p\<close>, Write of the Writer makes one call of the sink's Write, with
  the encoding of the whole of \<open>p\<close> under the bound hue (the enter-colour prefix, the bytes
  of \<open>p\<close>, the reset suffix), and returns what that call returns. With a sink that accepts
  everything, the count returned is the length of the encoded output, which exceeds
  \<open>len(p)\<close> by at least 10. All of this holds for the Writer of either revision; the Hue of
  the earlier one is left as its Encode leaves it.
\<close>

theorem Writer_Write_sink_result:
  "Writer_Write w p world = Some (Writer_wrapped w world (Encode (Writer_hue w) p))
   \<and> Writer_Write (NewWriter sink_Write h) p wd
       = Some (wd\<lparr>sink := sink wd @ [Encode h p]\<rparr>, int (length (Encode h p)), None)
   \<and> int (length p) + 10 \<le> int (length (Encode h p))
   \<and> Hue_Writer_Write W p world
       = Some (W\<lparr>Hue_Writer_Hue := fst (Hue_Encode (Hue_Writer_Hue W) p)\<rparr>,
               Hue_Writer_wrapped W world (snd (Hue_Encode (Hue_Writer_Hue W) p)))
   \<and> Hue_Writer_Write \<lparr>Hue_Writer_Hue = H, Hue_Writer_wrapped = sink_Write\<rparr> p wd
       = Some (\<lparr>Hue_Writer_Hue = fst (Hue_Encode H p), Hue_Writer_wrapped = sink_Write\<rparr>,
               wd\<lparr>sink := sink wd @ [snd (Hue_Encode H p)]\<rparr>,
               int (length (snd (Hue_Encode H p))), None)
   \<and> int (length p) + 10 \<le> int (length (snd (Hue_Encode H p)))
   \<and> snd (Hue_Encode H p)
       = ASCIIFmt (if Fg H = 0 then Hue_Default else Fg H)
           (go_int ((if Bg H = 0 then Hue_Default else Bg H) + 10)) @ p @ ASCIIReset
   \<and> Encode h p = ASCIIFmt (hue_Fg h) (hue_Bg h) @ p @ ASCIIReset"
proof -
  have "int (length p) + 10 \<le> int (length (Encode h p))"
    using length_fmt_d [of "hue_Fg h"] length_fmt_d [of "hue_Bg h"]
    by (simp add: length_Encode)
  then show ?thesis
    using length_Hue_Encode [of p H]
    by (simp add: Writer_Write_def Hue_Writer_Write_def hue_Sprintf_s Hue_Sprintf_s
        NewWriter_def sink_Write_def Hue_Encode_snd ASCIIFmtReset_split Encode_def)
qed

theorem Writer_Write_sink_result_witness:
  "Writer_Write (NewWriter sink_Write (New Green Default)) [0x61] \<lparr>sink = [], stdout = []\<rparr>
     = Some (\<lparr>sink = [[0x1B, 0x5B, 0x33, 0x32, 0x3B, 0x34, 0x39, 0x6D, 0x61, 0x1B, 0x5B, 0x30, 0x6D]],
              stdout = []\<rparr>, 13, None)
   \<and> Hue_Writer_Write \<lparr>Hue_Writer_Hue = \<lparr>Fg = Green, Bg = 0\<rparr>, Hue_Writer_wrapped = sink_Write\<rparr>
        [0x61] \<lparr>sink = [], stdout = []\<rparr>
     = Some (\<lparr>Hue_Writer_Hue = \<lparr>Fg = Green, Bg = Hue_Default\<rparr>, Hue_Writer_wrapped = sink_Write\<rparr>,
             \<lparr>sink = [[0x1B, 0x5B, 0x33, 0x32, 0x3B, 0x34, 0x38, 0x6D, 0x61, 0x1B, 0x5B, 0x30, 0x6D]],
              stdout = []\<rparr>, 13, None)"
proof -
  have "Writer_Write (NewWriter sink_Write (New Green Default)) [0x61] \<lparr>sink = [], stdout = []\<rparr>
      = Some (\<lparr>sink = [], stdout = []\<rparr>\<lparr>sink := sink \<lparr>sink = [], stdout = []\<rparr> @ [Encode (New Green Default) [0x61]]\<rparr>,
              int (length (Encode (New Green Default) [0x61])), None)"
    by (rule Writer_Write_sink_result [THEN conjunct2, THEN conjunct1])
  moreover have "Encode (New Green Default) [0x61]
      = [0x1B, 0x5B, 0x33, 0x32, 0x3B, 0x34, 0x39, 0x6D, 0x61, 0x1B, 0x5B, 0x30, 0x6D]"
    by code_simp
  moreover have "Hue_Writer_Write \<lparr>Hue_Writer_Hue = \<lparr>Fg = Green, Bg = 0\<rparr>, Hue_Writer_wrapped = sink_Write\<rparr>
        [0x61] \<lparr>sink = [], stdout = []\<rparr>
      = Some (\<lparr>Hue_Writer_Hue = fst (Hue_Encode \<lparr>Fg = Green, Bg = 0\<rparr> [0x61]), Hue_Writer_wrapped = sink_Write\<rparr>,
               \<lparr>sink = [], stdout = []\<rparr>\<lparr>sink := sink \<lparr>sink = [], stdout = []\<rparr> @ [snd (Hue_Encode \<lparr>Fg = Green, Bg = 0\<rparr> [0x61])]\<rparr>,
               int (length (snd (Hue_Encode \<lparr>Fg = Green, Bg = 0\<rparr> [0x61]))), None)"
    by (rule Writer_Write_sink_result [THEN conjunct2, THEN conjunct2, THEN conjunct2, THEN conjunct2, THEN conjunct1])
  moreover have "Hue_Encode \<lparr>Fg = Green, Bg = 0\<rparr> [0x61]
      = (\<lparr>Fg = Green, Bg = Hue_Default\<rparr>,
         [0x1B, 0x5B, 0x33, 0x32, 0x3B, 0x34, 0x38, 0x6D, 0x61, 0x1B, 0x5B, 0x30, 0x6D])"
    by code_simp
  ultimately show ?thesis by simp
qed

section \<open>RegexpWriter: the two maps\<close>

lemma fill_span_cases:
  "fill_span hm c j e =
     (if e \<le> j \<or> e \<le> length hm
      then Inr (map (\<lambda>x. if j \<le> x \<and> x < e then c else hm ! x) [0..<length hm])
      else Inl (IndexOutOfRange (max j (length hm)) (length hm)))"
proof (induction hm c j e rule: fill_span.induct)
  case (1 hm c j e)
  show ?case
  proof (cases "j < e")
    case False
    then have "map (\<lambda>x. if j \<le> x \<and> x < e then c else hm ! x) [0..<length hm] = hm"
      by (intro nth_equalityI) auto
    then show ?thesis using False
      by (subst fill_span.simps) simp
  next
    case je: True
    show ?thesis
    proof (cases "j < length hm")
      case False
      then show ?thesis using je
        by (subst fill_span.simps) (auto simp: max_def)
    next
      case True
      have "fill_span hm c j e = fill_span (hm[j := c]) c (Suc j) e"
        using je True by (subst fill_span.simps) simp
      also have "\<dots> = (if e \<le> Suc j \<or> e \<le> length hm
          then Inr (map (\<lambda>x. if Suc j \<le> x \<and> x < e then c else hm[j := c] ! x) [0..<length hm])
          else Inl (IndexOutOfRange (max (Suc j) (length hm)) (length hm)))"
        using 1 [OF je True] by simp
      also have "\<dots> = (if e \<le> j \<or> e \<le> length hm
          then Inr (map (\<lambda>x. if j \<le> x \<and> x < e then c else hm ! x) [0..<length hm])
          else Inl (IndexOutOfRange (max j (length hm)) (length hm)))"
        using je True by (auto simp: max_def nth_list_update intro!: nth_equalityI)
      finally show ?thesis .
    qed
  qed
qed

lemma fill_span_ok:
  assumes "e \<le> length hm"
  shows "\<exists>hm'. fill_span hm c j e = Inr hm' \<and> length hm' = length hm
           \<and> (\<forall>x < length hm. hm' ! x = (if j \<le> x \<and> x < e then c else hm ! x))"
  using assms by (simp add: fill_span_cases)

lemma fill_span_Inr:
  assumes "fill_span hm c j e = Inr hm'"
  shows "length hm' = length hm \<and> (\<forall>x < length hm. hm' ! x = (if j \<le> x \<and> x < e then c else hm ! x))"
  using assms by (auto simp: fill_span_cases split: if_splits)

lemma fill_spans_Inr:
  "fill_spans hm c x = Inr hm' \<Longrightarrow>
   length hm' = length hm
   \<and> (\<forall>pos < length hm. hm' ! pos =
        (if \<exists>w \<in> set x. fst w \<le> pos \<and> pos < snd w then c else hm ! pos))"
proof (induction x arbitrary: hm)
  case Nil
  then show ?case by simp
next
  case (Cons w x)
  from Cons.prems obtain hm1 where 1: "fill_span hm c (fst w) (snd w) = Inr hm1"
    and 2: "fill_spans hm1 c x = Inr hm'"
    by (auto split: sum.splits)
  from fill_span_Inr [OF 1] Cons.IH [OF 2] show ?case by auto
qed

lemma fill_spans_ok:
  "\<forall>w \<in> set x. snd w \<le> length hm \<Longrightarrow> \<exists>hm'. fill_spans hm c x = Inr hm'"
proof (induction x arbitrary: hm)
  case Nil
  then show ?case by simp
next
  case (Cons w x)
  then have "snd w \<le> length hm" by simp
  from fill_span_ok [OF this, of c "fst w"] obtain hm1
    where 1: "fill_span hm c (fst w) (snd w) = Inr hm1" and l: "length hm1 = length hm"
    by blast
  from Cons.prems l have "\<forall>w \<in> set x. snd w \<le> length hm1" by simp
  from Cons.IH [OF this] 1 show ?case by simp
qed

lemma rules_loop_stop: "length rm \<le> i \<Longrightarrow> rules_loop rs p i hm rm = Inr (hm, rm)"
  by (subst rules_loop.simps) simp

lemma rules_loop_step:
  assumes "i < length rm" and "1 \<le> i" and "length rm = Suc (length rs)"
  shows "rules_loop rs p i hm rm =
     (case fill_spans hm (of_nat i) (rule_FindAllIndex (rs ! (i - 1)) p) of
        Inl e \<Rightarrow> Inl e
      | Inr hm1 \<Rightarrow> rules_loop rs p (Suc i) hm1 (rm[i := Some (rule_hue (rs ! (i - 1)))]))"
proof -
  have "i - 1 < length rs" using assms by simp
  then show ?thesis using assms(1)
    by (subst rules_loop.simps) (simp add: Let_def split: sum.splits)
qed

lemma rules_loop_Inr:
  assumes "rules_loop rs p i hm rm = Inr (hm', rm')"
    and "length rm = Suc (length rs)" and "1 \<le> i"
  shows "length hm' = length hm \<and> length rm' = length rm
     \<and> (\<forall>k < i. rm' ! k = rm ! k)
     \<and> (\<forall>k. i \<le> k \<and> k \<le> length rs \<longrightarrow> rm' ! k = Some (rule_hue (rs ! (k - 1))))
     \<and> (\<forall>pos < length hm.
          (hm' ! pos = hm ! pos \<or> (\<exists>k. i \<le> k \<and> k \<le> length rs \<and> hm' ! pos = of_nat k))
        \<and> (\<forall>k. i \<le> k \<and> k \<le> length rs \<and> covers (rs ! (k - 1)) p pos
               \<and> (\<forall>k'. k < k' \<and> k' \<le> length rs \<longrightarrow> \<not> covers (rs ! (k' - 1)) p pos)
               \<longrightarrow> hm' ! pos = of_nat k)
        \<and> ((\<forall>k. i \<le> k \<and> k \<le> length rs \<longrightarrow> \<not> covers (rs ! (k - 1)) p pos)
               \<longrightarrow> hm' ! pos = hm ! pos))"
  using assms
proof (induction "Suc (length rs) - i" arbitrary: i hm rm)
  case 0
  then have "length rm \<le> i" by simp
  with 0 show ?case by (auto simp: rules_loop_stop)
next
  case (Suc d)
  then have i: "i < length rm" "1 \<le> i" "i \<le> length rs" by simp_all
  let ?r = "rs ! (i - 1)"
  let ?rm1 = "rm[i := Some (rule_hue ?r)]"
  from Suc.prems(1) rules_loop_step [OF i(1) i(2) Suc.prems(2), of p hm]
  obtain hm1 where 1: "fill_spans hm (of_nat i) (rule_FindAllIndex ?r p) = Inr hm1"
    and 2: "rules_loop rs p (Suc i) hm1 ?rm1 = Inr (hm', rm')"
    by (auto split: sum.splits)
  from fill_spans_Inr [OF 1]
  have l1: "length hm1 = length hm"
    and h1: "\<And>pos. pos < length hm \<Longrightarrow> hm1 ! pos = (if covers ?r p pos then of_nat i else hm ! pos)"
    by (simp_all add: covers_def)
  have d: "d = Suc (length rs) - Suc i" using Suc.hyps(2) by simp
  have lr: "length ?rm1 = Suc (length rs)" using Suc.prems(2) by simp
  from Suc.hyps(1) [OF d 2 lr]
  have IH: "length hm' = length hm1" "length rm' = length ?rm1"
    "\<And>k. k < Suc i \<Longrightarrow> rm' ! k = ?rm1 ! k"
    "\<And>k. Suc i \<le> k \<Longrightarrow> k \<le> length rs \<Longrightarrow> rm' ! k = Some (rule_hue (rs ! (k - 1)))"
    "\<And>pos. pos < length hm1 \<Longrightarrow>
        hm' ! pos = hm1 ! pos \<or> (\<exists>k. Suc i \<le> k \<and> k \<le> length rs \<and> hm' ! pos = of_nat k)"
    "\<And>pos k. pos < length hm1 \<Longrightarrow> Suc i \<le> k \<Longrightarrow> k \<le> length rs \<Longrightarrow> covers (rs ! (k - 1)) p pos
        \<Longrightarrow> (\<forall>k'. k < k' \<and> k' \<le> length rs \<longrightarrow> \<not> covers (rs ! (k' - 1)) p pos)
        \<Longrightarrow> hm' ! pos = of_nat k"
    "\<And>pos. pos < length hm1 \<Longrightarrow> (\<forall>k. Suc i \<le> k \<and> k \<le> length rs \<longrightarrow> \<not> covers (rs ! (k - 1)) p pos)
        \<Longrightarrow> hm' ! pos = hm1 ! pos"
    by simp_all
  have a: "length hm' = length hm \<and> length rm' = length rm"
    using IH(1,2) l1 by simp
  have b: "\<forall>k < i. rm' ! k = rm ! k"
    using IH(3) by simp
  have c: "\<forall>k. i \<le> k \<and> k \<le> length rs \<longrightarrow> rm' ! k = Some (rule_hue (rs ! (k - 1)))"
  proof (intro allI impI)
    fix k assume k: "i \<le> k \<and> k \<le> length rs"
    show "rm' ! k = Some (rule_hue (rs ! (k - 1)))"
    proof (cases "k = i")
      case True
      then show ?thesis using IH(3) [of i] i(1) by simp
    next
      case False
      then show ?thesis using IH(4) [of k] k by simp
    qed
  qed
  have e: "\<forall>pos < length hm.
          (hm' ! pos = hm ! pos \<or> (\<exists>k. i \<le> k \<and> k \<le> length rs \<and> hm' ! pos = of_nat k))
        \<and> (\<forall>k. i \<le> k \<and> k \<le> length rs \<and> covers (rs ! (k - 1)) p pos
               \<and> (\<forall>k'. k < k' \<and> k' \<le> length rs \<longrightarrow> \<not> covers (rs ! (k' - 1)) p pos)
               \<longrightarrow> hm' ! pos = of_nat k)
        \<and> ((\<forall>k. i \<le> k \<and> k \<le> length rs \<longrightarrow> \<not> covers (rs ! (k - 1)) p pos)
               \<longrightarrow> hm' ! pos = hm ! pos)"
  proof (intro allI impI conjI)
    fix pos assume pos: "pos < length hm"
    then have pos1: "pos < length hm1" using l1 by simp
    show "hm' ! pos = hm ! pos \<or> (\<exists>k. i \<le> k \<and> k \<le> length rs \<and> hm' ! pos = of_nat k)"
    proof (cases "hm' ! pos = hm1 ! pos")
      case True
      then show ?thesis using h1 [OF pos] i(3) by (auto split: if_splits)
    next
      case False
      with IH(5) [OF pos1] obtain k where "Suc i \<le> k" "k \<le> length rs" "hm' ! pos = of_nat k"
        by blast
      then show ?thesis by (intro disjI2 exI [of _ k]) simp
    qed
  next
    fix pos k assume pos: "pos < length hm"
      and k: "i \<le> k \<and> k \<le> length rs \<and> covers (rs ! (k - 1)) p pos
               \<and> (\<forall>k'. k < k' \<and> k' \<le> length rs \<longrightarrow> \<not> covers (rs ! (k' - 1)) p pos)"
    then have pos1: "pos < length hm1" using l1 by simp
    show "hm' ! pos = of_nat k"
    proof (cases "k = i")
      case True
      then have "\<forall>k. Suc i \<le> k \<and> k \<le> length rs \<longrightarrow> \<not> covers (rs ! (k - 1)) p pos"
        using k by auto
      from IH(7) [OF pos1 this] h1 [OF pos] k True show ?thesis by simp
    next
      case False
      then have "Suc i \<le> k" using k by simp
      from IH(6) [OF pos1 this] k show ?thesis by blast
    qed
  next
    fix pos assume pos: "pos < length hm"
      and n: "\<forall>k. i \<le> k \<and> k \<le> length rs \<longrightarrow> \<not> covers (rs ! (k - 1)) p pos"
    then have pos1: "pos < length hm1" using l1 by simp
    from n have "\<forall>k. Suc i \<le> k \<and> k \<le> length rs \<longrightarrow> \<not> covers (rs ! (k - 1)) p pos" by auto
    from IH(7) [OF pos1 this] have "hm' ! pos = hm1 ! pos" .
    moreover have "\<not> covers ?r p pos" using n i(3) by blast
    ultimately show "hm' ! pos = hm ! pos" using h1 [OF pos] by simp
  qed
  from a b c e show ?case by blast
qed

lemma rules_loop_ok:
  assumes "spans_ok rs p" and "length hm = length p" and "length rm = Suc (length rs)" and "1 \<le> i"
  shows "\<exists>hm' rm'. rules_loop rs p i hm rm = Inr (hm', rm')"
  using assms
proof (induction "Suc (length rs) - i" arbitrary: i hm rm)
  case 0
  then have "length rm \<le> i" by simp
  then show ?case by (simp add: rules_loop_stop)
next
  case (Suc d)
  then have i: "i < length rm" "1 \<le> i" "i \<le> length rs" by simp_all
  let ?r = "rs ! (i - 1)"
  have "?r \<in> set rs" using i by simp
  with Suc.prems(1,2) have "\<forall>w \<in> set (rule_FindAllIndex ?r p). snd w \<le> length hm"
    by (simp add: spans_ok_def)
  from fill_spans_ok [OF this] obtain hm1
    where 1: "fill_spans hm (of_nat i) (rule_FindAllIndex ?r p) = Inr hm1" by blast
  from fill_spans_Inr [OF 1] Suc.prems(2) have l1: "length hm1 = length p" by simp
  have d: "d = Suc (length rs) - Suc i" using Suc.hyps(2) by simp
  have "\<exists>hm' rm'. rules_loop rs p (Suc i) hm1 (rm[i := Some (rule_hue ?r)]) = Inr (hm', rm')"
    using Suc.prems(3) by (intro Suc.hyps(1) [OF d Suc.prems(1) l1]) simp_all
  then show ?case
    using rules_loop_step [OF i(1) i(2) Suc.prems(3), of p hm] 1 by simp
qed

lemma unat_byte_of_nat_le: "unat (of_nat k :: byte) \<le> k"
  by (simp add: unat_of_nat)

lemma Write_maps_Inr:
  assumes "Write_maps rs p = Inr (hm, rm)"
  shows "length hm = length p"
    and "rm = Some \<lparr>fg = 0, bg = 0\<rparr> # map (\<lambda>r. Some (rule_hue r)) rs"
    and "\<forall>pos < length p. unat (hm ! pos) \<le> length rs"
    and "\<forall>pos < length p. \<forall>k. 1 \<le> k \<and> k \<le> length rs \<and> covers (rs ! (k - 1)) p pos
               \<and> (\<forall>k'. k < k' \<and> k' \<le> length rs \<longrightarrow> \<not> covers (rs ! (k' - 1)) p pos)
               \<longrightarrow> hm ! pos = of_nat k"
    and "\<forall>pos < length p. (\<forall>k. 1 \<le> k \<and> k \<le> length rs \<longrightarrow> \<not> covers (rs ! (k - 1)) p pos)
               \<longrightarrow> hm ! pos = 0"
proof -
  let ?hm0 = "replicate (length p) (0 :: byte)"
  let ?rm0 = "(replicate (length rs + 1) None)[0 := Some \<lparr>fg = 0, bg = 0\<rparr>]"
  have r: "rules_loop rs p 1 ?hm0 ?rm0 = Inr (hm, rm)"
    using assms by (simp add: Write_maps_def)
  have "length ?rm0 = Suc (length rs)" by simp
  from rules_loop_Inr [OF r this]
  have f: "length hm = length ?hm0" "length rm = length ?rm0"
    "\<And>k. k < 1 \<Longrightarrow> rm ! k = ?rm0 ! k"
    "\<And>k. 1 \<le> k \<Longrightarrow> k \<le> length rs \<Longrightarrow> rm ! k = Some (rule_hue (rs ! (k - 1)))"
    "\<And>pos. pos < length ?hm0 \<Longrightarrow>
        hm ! pos = ?hm0 ! pos \<or> (\<exists>k. 1 \<le> k \<and> k \<le> length rs \<and> hm ! pos = of_nat k)"
    "\<And>pos k. pos < length ?hm0 \<Longrightarrow> 1 \<le> k \<and> k \<le> length rs \<and> covers (rs ! (k - 1)) p pos
               \<and> (\<forall>k'. k < k' \<and> k' \<le> length rs \<longrightarrow> \<not> covers (rs ! (k' - 1)) p pos)
        \<Longrightarrow> hm ! pos = of_nat k"
    "\<And>pos. pos < length ?hm0 \<Longrightarrow> (\<forall>k. 1 \<le> k \<and> k \<le> length rs \<longrightarrow> \<not> covers (rs ! (k - 1)) p pos)
        \<Longrightarrow> hm ! pos = ?hm0 ! pos"
    by blast+
  show "length hm = length p" using f(1) by simp
  show "rm = Some \<lparr>fg = 0, bg = 0\<rparr> # map (\<lambda>r. Some (rule_hue r)) rs"
  proof (rule nth_equalityI)
    show "length rm = length (Some \<lparr>fg = 0, bg = 0\<rparr> # map (\<lambda>r. Some (rule_hue r)) rs)"
      using f(2) by simp
  next
    fix k assume "k < length rm"
    then have k: "k \<le> length rs" using f(2) by simp
    show "rm ! k = (Some \<lparr>fg = 0, bg = 0\<rparr> # map (\<lambda>r. Some (rule_hue r)) rs) ! k"
    proof (cases k)
      case 0
      then show ?thesis using f(3) [of 0] by simp
    next
      case (Suc j)
      then show ?thesis using f(4) [of k] k by simp
    qed
  qed
  show "\<forall>pos < length p. unat (hm ! pos) \<le> length rs"
  proof (intro allI impI)
    fix pos assume "pos < length p"
    then have "hm ! pos = 0 \<or> (\<exists>k. 1 \<le> k \<and> k \<le> length rs \<and> hm ! pos = of_nat k)"
      using f(5) [of pos] by simp
    then show "unat (hm ! pos) \<le> length rs"
    proof
      assume "hm ! pos = 0" then show ?thesis by simp
    next
      assume "\<exists>k. 1 \<le> k \<and> k \<le> length rs \<and> hm ! pos = of_nat k"
      then obtain k where "k \<le> length rs" "hm ! pos = of_nat k" by blast
      then show ?thesis using unat_byte_of_nat_le [of k] by simp
    qed
  qed
  show "\<forall>pos < length p. \<forall>k. 1 \<le> k \<and> k \<le> length rs \<and> covers (rs ! (k - 1)) p pos
               \<and> (\<forall>k'. k < k' \<and> k' \<le> length rs \<longrightarrow> \<not> covers (rs ! (k' - 1)) p pos)
               \<longrightarrow> hm ! pos = of_nat k"
    using f(6) by simp
  show "\<forall>pos < length p. (\<forall>k. 1 \<le> k \<and> k \<le> length rs \<longrightarrow> \<not> covers (rs ! (k - 1)) p pos)
               \<longrightarrow> hm ! pos = 0"
    using f(7) by simp
qed

lemma Write_maps_ok:
  assumes "spans_ok rs p"
  shows "\<exists>hm rm. Write_maps rs p = Inr (hm, rm)"
  unfolding Write_maps_def Let_def
  by (rule rules_loop_ok [OF assms]) simp_all

lemma ASCIIFmt_0_0: "ASCIIFmt 0 0 = [0x1B, 0x5B, 0x30, 0x3B, 0x30, 0x6D]"
  by (simp add: ASCIIFmt_def fmt_d_0)

lemma switch_hue_sink:
  assumes "unat h \<le> length rs"
  shows "switch_hue sink_Write (Some \<lparr>fg = 0, bg = 0\<rparr> # map (\<lambda>r. Some (rule_hue r)) rs) h n wd
       = Inr (wd\<lparr>sink := sink wd @ [escape_of rs h]\<rparr>, n + int (length (escape_of rs h)), None)"
proof (cases "h = 0")
  case True
  then show ?thesis
    by (simp add: switch_hue_def fmt_Fprintf_def sink_Write_def escape_of_def hue_Fg_def hue_Bg_def
        ASCIIFmt_0_0)
next
  case False
  then have "unat h \<noteq> 0" by (simp add: unat_eq_0)
  then obtain j where j: "unat h = Suc j" by (cases "unat h") auto
  then have "j < length rs" using assms by simp
  then show ?thesis using False j
    by (simp add: switch_hue_def fmt_Fprintf_def sink_Write_def escape_of_def)
qed

lemma write_loop_stop: "length p \<le> i \<Longrightarrow> write_loop wr rm hm p i hue n wd = Inr (wd, n, None)"
  by (subst write_loop.simps) simp

lemma write_loop_sink:
  assumes "length hm = length p"
    and "\<forall>pos < length p. unat (hm ! pos) \<le> length rs"
    and "i \<le> length p"
  shows "write_loop sink_Write (Some \<lparr>fg = 0, bg = 0\<rparr> # map (\<lambda>r. Some (rule_hue r)) rs) hm p i
           (prev_hue hm i) n wd
       = Inr (wd\<lparr>sink := sink wd @ concat (map (sent_at rs hm p) [i..<length p])\<rparr>,
              n + int (length (concat (concat (map (sent_at rs hm p) [i..<length p])))), None)"
  using assms(3)
proof (induction "length p - i" arbitrary: i n wd)
  case 0
  then have "i = length p" by simp
  then show ?case by (simp add: write_loop_stop)
next
  case (Suc d)
  let ?rm = "Some \<lparr>fg = 0, bg = 0\<rparr> # map (\<lambda>r. Some (rule_hue r)) rs"
  from Suc have i: "i < length p" by simp
  then have ih: "i < length hm" and u: "unat (hm ! i) \<le> length rs" using assms by simp_all
  have d: "d = length p - Suc i" using Suc.hyps(2) by simp
  have nx: "prev_hue hm (Suc i) = hm ! i" by (simp add: prev_hue_def)
  have up: "[i..<length p] = i # [Suc i..<length p]" using i by (simp add: upt_conv_Cons)
  note IH = Suc.hyps(1) [OF d, unfolded nx]
  show ?case
  proof (cases "hm ! i = prev_hue hm i")
    case True
    have "write_loop sink_Write ?rm hm p i (prev_hue hm i) n wd
        = write_loop sink_Write ?rm hm p (Suc i) (hm ! i) (n + int (length (fmt_c (p ! i))))
            (wd\<lparr>sink := sink wd @ [fmt_c (p ! i)]\<rparr>)"
      using i ih True
      by (subst write_loop.simps) (simp add: fmt_Fprintf_def sink_Write_def)
    also note IH
    finally show ?thesis using i True
      by (simp add: up sent_at_def)
  next
    case False
    have "write_loop sink_Write ?rm hm p i (prev_hue hm i) n wd
        = write_loop sink_Write ?rm hm p (Suc i) (hm ! i)
            (n + int (length (escape_of rs (hm ! i))) + int (length (fmt_c (p ! i))))
            (wd\<lparr>sink := sink wd @ [escape_of rs (hm ! i), fmt_c (p ! i)]\<rparr>)"
      using i ih False
      by (subst write_loop.simps) (simp add: switch_hue_sink [OF u] fmt_Fprintf_def sink_Write_def)
    also note IH
    finally show ?thesis using i False
      by (simp add: up sent_at_def)
  qed
qed

section \<open>RegexpWriter: what the sink receives\<close>

lemma RegexpWriter_Write_sink:
  assumes "Write_maps rs p = Inr (hm, rm)"
  shows "RegexpWriter_Write stdout_Write \<lparr>rules = rs, wrapped = sink_Write\<rparr> p wd
     = Inr (wd\<lparr>sink := sink wd @ concat (map (sent_at rs hm p) [0..<length p]),
               stdout := stdout wd @ ASCIIReset\<rparr>,
            int (length (concat (concat (map (sent_at rs hm p) [0..<length p])))), None)"
proof -
  note m = Write_maps_Inr [OF assms]
  have "write_loop sink_Write rm hm p 0 0 0 wd
      = Inr (wd\<lparr>sink := sink wd @ concat (map (sent_at rs hm p) [0..<length p])\<rparr>,
             0 + int (length (concat (concat (map (sent_at rs hm p) [0..<length p])))), None)"
    using write_loop_sink [OF m(1) m(3), of 0 0 wd] by (simp add: prev_hue_def m(2))
  then show ?thesis
    by (simp add: RegexpWriter_Write_def assms fmt_Print_def stdout_Write_def)
qed







lemma length_fmt_c: "length (fmt_c b) \<le> 2"
  by (simp add: fmt_c_def)

lemma length_ASCIIFmt: "6 \<le> length (ASCIIFmt f b)"
  using length_fmt_d [of f] length_fmt_d [of b] by (simp add: ASCIIFmt_def)

lemma length_escape_of: "6 \<le> length (escape_of rs k)"
  using length_ASCIIFmt by (simp add: escape_of_def)

lemma sent_not_reset: "ASCIIReset \<notin> set (concat (map (sent_at rs hm p) xs))"
proof -
  have "\<forall>c \<in> set (concat (map (sent_at rs hm p) xs)). length c \<noteq> 4"
  proof
    fix c assume "c \<in> set (concat (map (sent_at rs hm p) xs))"
    then obtain i where "c \<in> set (sent_at rs hm p i)" by auto
    then have "c = escape_of rs (hm ! i) \<or> c = fmt_c (p ! i)"
      by (auto simp: sent_at_def split: if_splits)
    then show "length c \<noteq> 4"
      using length_escape_of [of rs "hm ! i"] length_fmt_c [of "p ! i"] by auto
  qed
  moreover have "length ASCIIReset = 4" by (simp add: ASCIIReset_def)
  ultimately show ?thesis by blast
qed



lemma byte_of_nat_small: "k \<le> 255 \<Longrightarrow> unat (of_nat k :: byte) = k"
  by (simp add: unat_of_nat)

text \<open>
  With at most 255 rules the colour index of a position is the number of the last-added
  rule with a match that covers it, and 0 when no rule covers it.
\<close>

lemma huemap_last_rule_wins:
  assumes "Write_maps rs p = Inr (hm, rm)" and "length rs \<le> 255" and "pos < length p"
  shows "(\<forall>k. 1 \<le> k \<and> k \<le> length rs \<and> covers (rs ! (k - 1)) p pos
               \<and> (\<forall>k'. k < k' \<and> k' \<le> length rs \<longrightarrow> \<not> covers (rs ! (k' - 1)) p pos)
               \<longrightarrow> unat (hm ! pos) = k)
       \<and> ((\<forall>k. 1 \<le> k \<and> k \<le> length rs \<longrightarrow> \<not> covers (rs ! (k - 1)) p pos)
               \<longrightarrow> hm ! pos = 0)"
proof (intro conjI allI impI)
  fix k assume k: "1 \<le> k \<and> k \<le> length rs \<and> covers (rs ! (k - 1)) p pos
               \<and> (\<forall>k'. k < k' \<and> k' \<le> length rs \<longrightarrow> \<not> covers (rs ! (k' - 1)) p pos)"
  then have "hm ! pos = of_nat k"
    using Write_maps_Inr(4) [OF assms(1)] assms(3) by blast
  moreover have "k \<le> 255" using k assms(2) by simp
  ultimately show "unat (hm ! pos) = k" by (simp add: byte_of_nat_small)
next
  assume "\<forall>k. 1 \<le> k \<and> k \<le> length rs \<longrightarrow> \<not> covers (rs ! (k - 1)) p pos"
  then show "hm ! pos = 0"
    using Write_maps_Inr(5) [OF assms(1)] assms(3) by blast
qed

lemma huemap_same_rule:
  assumes c: "covers r p pos" and pos: "pos < length p" and n: "0 < n"
    and w: "Write_maps (replicate n r) p = Inr (hm, rm)"
  shows "hm ! pos = of_nat n"
proof -
  have "1 \<le> n \<and> n \<le> length (replicate n r) \<and> covers (replicate n r ! (n - 1)) p pos
      \<and> (\<forall>k'. n < k' \<and> k' \<le> length (replicate n r) \<longrightarrow> \<not> covers (replicate n r ! (k' - 1)) p pos)"
    using c n by simp
  then show ?thesis
    using Write_maps_Inr(4) [OF w] pos by blast
qed

text \<open>
  C1 does not hold for every number of rules: the colour index is stored in a byte. With 256
  rules that each match the byte at position 0, the last-added rule, number 256, covers the
  position, and the index the loop stores there is \<open>byte(256)\<close>, which is 0, the index of
  no rule. Write then sends the byte with no colour at all.
\<close>

theorem huemap_index_wraps:
  "(\<exists>rm. Write_maps (replicate 256 \<lparr>rule_hue = New Green Default, rule_FindAllIndex = (\<lambda>p. [(0, 1)])\<rparr>)
            [0x61] = Inr ([0], rm))
   \<and> covers \<lparr>rule_hue = New Green Default, rule_FindAllIndex = (\<lambda>p. [(0, 1)])\<rparr> [0x61] 0
   \<and> RegexpWriter_Write stdout_Write
        \<lparr>rules = replicate 256 \<lparr>rule_hue = New Green Default, rule_FindAllIndex = (\<lambda>p. [(0, 1)])\<rparr>,
         wrapped = sink_Write\<rparr> [0x61] \<lparr>sink = [], stdout = []\<rparr>
      = Inr (\<lparr>sink = [[0x61]], stdout = [0x1B, 0x5B, 0x30, 0x6D]\<rparr>, 1, None)"
proof -
  define r where "r = \<lparr>rule_hue = New Green Default, rule_FindAllIndex = (\<lambda>p. [(0 :: nat, 1 :: nat)])\<rparr>"
  define rs where "rs = replicate 256 r"
  let ?p = "[0x61 :: byte]"
  have c: "covers r ?p 0" by (simp add: covers_def r_def)
  have "set rs \<subseteq> {r}" unfolding rs_def by (rule set_replicate_conv_if [THEN equalityD1, THEN subset_trans]) simp
  then have "spans_ok rs ?p" by (auto simp: spans_ok_def r_def)
  from Write_maps_ok [OF this] obtain hm rm where w: "Write_maps rs ?p = Inr (hm, rm)" by blast
  have "hm ! 0 = of_nat 256"
    using w unfolding rs_def by (intro huemap_same_rule [OF c]) simp_all
  then have "hm ! 0 = 0" by simp
  moreover have "length hm = 1" using Write_maps_Inr(1) [OF w] by simp
  ultimately have hm: "hm = [0]" by (cases hm) auto
  have 1: "\<exists>rm. Write_maps rs ?p = Inr ([0], rm)" using w hm by blast
  have 3: "RegexpWriter_Write stdout_Write \<lparr>rules = rs, wrapped = sink_Write\<rparr> ?p \<lparr>sink = [], stdout = []\<rparr>
      = Inr (\<lparr>sink = [[0x61]], stdout = [0x1B, 0x5B, 0x30, 0x6D]\<rparr>, 1, None)"
    using RegexpWriter_Write_sink [OF w, of "\<lparr>sink = [], stdout = []\<rparr>"]
    by (simp add: hm sent_at_def prev_hue_def fmt_c_def ASCIIReset_def)
  from 1 c 3 show ?thesis unfolding r_def rs_def by blast
qed

lemma Write_maps_no_rules: "Write_maps [] p = Inr (replicate (length p) 0, [Some \<lparr>fg = 0, bg = 0\<rparr>])"
  by (simp add: Write_maps_def rules_loop_stop)

text \<open>
  C2 on the code. With no rules and a sink other than standard output that accepts
  everything, the sink receives one write per byte of the input, each the \<open>%c\<close> rendering
  of the byte, and nothing else: the reset sequence is printed on standard output. A byte of
  value 0x80 or more is not passed as it is: 0xC0 reaches the sink as 0xC3 0x80.
\<close>

theorem Write_no_rules_sink:
  "RegexpWriter_Write stdout_Write (NewRegexpWriter sink_Write) B wd
     = Inr (wd\<lparr>sink := sink wd @ map fmt_c B, stdout := stdout wd @ ASCIIReset\<rparr>,
            int (length (concat (map fmt_c B))), None)
   \<and> RegexpWriter_Write stdout_Write (NewRegexpWriter sink_Write) [0x61, 0xC0]
        \<lparr>sink = [], stdout = []\<rparr>
     = Inr (\<lparr>sink = [[0x61], [0xC3, 0x80]], stdout = [0x1B, 0x5B, 0x30, 0x6D]\<rparr>, 3, None)"
proof -
  have s: "map (sent_at [] (replicate (length p) 0) p) [0..<length p] = map (\<lambda>b. [fmt_c b]) p" for p
    by (rule nth_equalityI) (auto simp: sent_at_def prev_hue_def)
  have g: "RegexpWriter_Write stdout_Write (NewRegexpWriter sink_Write) p wd
     = Inr (wd\<lparr>sink := sink wd @ map fmt_c p, stdout := stdout wd @ ASCIIReset\<rparr>,
            int (length (concat (map fmt_c p))), None)" for p wd
    using RegexpWriter_Write_sink [OF Write_maps_no_rules, of p wd]
    unfolding s NewRegexpWriter_def by (simp add: concat_map_singleton)
  show ?thesis
    using g [of B wd] g [of "[0x61, 0xC0]" "\<lparr>sink = [], stdout = []\<rparr>"]
    by (simp add: fmt_c_def ASCIIReset_def)
qed

lemma write_loop_closed:
  assumes "length hm = length (b # p)" and "unat (hm ! 0) < length rm" and "rm ! unat (hm ! 0) \<noteq> None"
  shows "write_loop closed_Write rm hm (b # p) 0 0 0 wd = Inr (wd, 0, Some (Error ''closed''))"
  using assms
  by (subst write_loop.simps)
    (auto simp: switch_hue_def fmt_Fprintf_def closed_Write_def split: option.splits)

text \<open>
  C3 on the code. For every buffer and every rule set whose matches end inside the buffer,
  with a sink other than standard output that accepts everything, no write that the sink
  receives is the reset sequence; the reset sequence is appended to standard output. With a
  sink that refuses its first write, Write returns that error at once and prints no reset
  sequence anywhere.
\<close>

theorem Write_reset_not_in_sink:
  assumes "spans_ok rs p"
  shows "(\<exists>wd' n new.
            RegexpWriter_Write stdout_Write \<lparr>rules = rs, wrapped = sink_Write\<rparr> p wd = Inr (wd', n, None)
            \<and> sink wd' = sink wd @ new \<and> ASCIIReset \<notin> set new
            \<and> stdout wd' = stdout wd @ ASCIIReset)
       \<and> (p \<noteq> [] \<longrightarrow>
            RegexpWriter_Write stdout_Write \<lparr>rules = rs, wrapped = closed_Write\<rparr> p wd
              = Inr (wd, 0, Some (Error ''closed'')))"
proof -
  from Write_maps_ok [OF assms] obtain hm rm where w: "Write_maps rs p = Inr (hm, rm)" by blast
  note m = Write_maps_Inr [OF w]
  have 1: "\<exists>wd' n new.
            RegexpWriter_Write stdout_Write \<lparr>rules = rs, wrapped = sink_Write\<rparr> p wd = Inr (wd', n, None)
            \<and> sink wd' = sink wd @ new \<and> ASCIIReset \<notin> set new
            \<and> stdout wd' = stdout wd @ ASCIIReset"
    using RegexpWriter_Write_sink [OF w, of wd] sent_not_reset [of rs hm p "[0..<length p]"]
    by simp
  have 2: "RegexpWriter_Write stdout_Write \<lparr>rules = rs, wrapped = closed_Write\<rparr> p wd
              = Inr (wd, 0, Some (Error ''closed''))" if "p \<noteq> []"
  proof -
    from that obtain b p' where p: "p = b # p'" by (cases p) auto
    have u: "unat (hm ! 0) \<le> length rs" using m(3) p by simp
    then have "unat (hm ! 0) < length rm" by (simp add: m(2))
    moreover have "rm ! unat (hm ! 0) \<noteq> None"
      using u by (cases "unat (hm ! 0)") (simp_all add: m(2))
    ultimately have "write_loop closed_Write rm hm (b # p') 0 0 0 wd = Inr (wd, 0, Some (Error ''closed''))"
      using m(1) p by (intro write_loop_closed) simp_all
    then show ?thesis by (simp add: RegexpWriter_Write_def w p [symmetric])
  qed
  from 1 2 show ?thesis by blast
qed

theorem Write_reset_not_in_sink_witness:
  "RegexpWriter_Write stdout_Write \<lparr>rules = [], wrapped = sink_Write\<rparr> [] \<lparr>sink = [], stdout = []\<rparr>
     = Inr (\<lparr>sink = [], stdout = [0x1B, 0x5B, 0x30, 0x6D]\<rparr>, 0, None)
   \<and> RegexpWriter_Write stdout_Write \<lparr>rules = [], wrapped = closed_Write\<rparr> [0x61] \<lparr>sink = [], stdout = []\<rparr>
     = Inr (\<lparr>sink = [], stdout = []\<rparr>, 0, Some (Error ''closed''))"
proof -
  have e: "spans_ok [] []" and a: "spans_ok [] [0x61]" by (simp_all add: spans_ok_def)
  have "RegexpWriter_Write stdout_Write \<lparr>rules = [], wrapped = closed_Write\<rparr> [0x61] \<lparr>sink = [], stdout = []\<rparr>
     = Inr (\<lparr>sink = [], stdout = []\<rparr>, 0, Some (Error ''closed''))"
    using Write_reset_not_in_sink [OF a, of "\<lparr>sink = [], stdout = []\<rparr>"] by simp
  moreover have "RegexpWriter_Write stdout_Write \<lparr>rules = [], wrapped = sink_Write\<rparr> [] \<lparr>sink = [], stdout = []\<rparr>
     = Inr (\<lparr>sink = [], stdout = [0x1B, 0x5B, 0x30, 0x6D]\<rparr>, 0, None)"
    by code_simp
  ultimately show ?thesis by simp
qed







text \<open>
  C5, as stated, fails: on the change to index 0 the sequence sent before the byte is
  \<open>ESC [ 0 ; 0 m\<close>, the enter-colour format applied to the zero hue that index 0 stands
  for, and not the four bytes \<open>ESC [ 0 m\<close>.
\<close>

theorem Write_to_no_colour_counterexample:
  "RegexpWriter_Write stdout_Write
       \<lparr>rules = [\<lparr>rule_hue = New Green Default, rule_FindAllIndex = (\<lambda>p. [(0, 1)])\<rparr>],
        wrapped = sink_Write\<rparr> [0x58, 0x62] \<lparr>sink = [], stdout = []\<rparr>
     = Inr (\<lparr>sink = [[0x1B, 0x5B, 0x33, 0x32, 0x3B, 0x34, 0x39, 0x6D], [0x58],
                      [0x1B, 0x5B, 0x30, 0x3B, 0x30, 0x6D], [0x62]],
              stdout = [0x1B, 0x5B, 0x30, 0x6D]\<rparr>, 16, None)
   \<and> [0x1B, 0x5B, 0x30, 0x3B, 0x30, 0x6D] \<noteq> ASCIIReset"
  by code_simp

text \<open>
  C5, amended. For every buffer and every rule set whose matches end inside the buffer, with
  a sink that accepts everything, the sink receives for each position in turn: the byte alone
  (in its \<open>%c\<close> rendering) when the colour index is that of the byte before; \<open>ESC [ 0 ; 0 m\<close>
  and then the byte when the index changes to 0; and otherwise the enter-colour sequence
  \<open>ESC [ fg ; bg m\<close> of the hue of the rule with that index, and then the byte.
\<close>

theorem Write_sends_on_change:
  assumes "spans_ok rs p"
  shows "\<exists>hm rm wd' n.
      Write_maps rs p = Inr (hm, rm)
    \<and> RegexpWriter_Write stdout_Write \<lparr>rules = rs, wrapped = sink_Write\<rparr> p wd = Inr (wd', n, None)
    \<and> sink wd' = sink wd @ concat (map (sent_at rs hm p) [0..<length p])
    \<and> (\<forall>i < length p.
          unat (hm ! i) \<le> length rs
        \<and> sent_at rs hm p i
            = (if hm ! i = prev_hue hm i then [fmt_c (p ! i)]
               else if hm ! i = 0 then [[0x1B, 0x5B, 0x30, 0x3B, 0x30, 0x6D], fmt_c (p ! i)]
               else [ASCIIFmt (fg (rule_hue (rs ! (unat (hm ! i) - 1))))
                       (bg (rule_hue (rs ! (unat (hm ! i) - 1)))),
                     fmt_c (p ! i)]))"
proof -
  from Write_maps_ok [OF assms] obtain hm rm where w: "Write_maps rs p = Inr (hm, rm)" by blast
  note m = Write_maps_Inr [OF w]
  have 1: "\<exists>wd' n. RegexpWriter_Write stdout_Write \<lparr>rules = rs, wrapped = sink_Write\<rparr> p wd = Inr (wd', n, None)
      \<and> sink wd' = sink wd @ concat (map (sent_at rs hm p) [0..<length p])"
    using RegexpWriter_Write_sink [OF w, of wd] by simp
  have 2: "sent_at rs hm p i
            = (if hm ! i = prev_hue hm i then [fmt_c (p ! i)]
               else if hm ! i = 0 then [[0x1B, 0x5B, 0x30, 0x3B, 0x30, 0x6D], fmt_c (p ! i)]
               else [ASCIIFmt (fg (rule_hue (rs ! (unat (hm ! i) - 1))))
                       (bg (rule_hue (rs ! (unat (hm ! i) - 1)))),
                     fmt_c (p ! i)])" for i
    by (simp add: sent_at_def escape_of_def hue_Fg_def hue_Bg_def)
  from w 1 2 m(3) show ?thesis by blast
qed

theorem Write_sends_on_change_witness:
  "spans_ok [\<lparr>rule_hue = New Red White, rule_FindAllIndex = (\<lambda>p. [(0, 1)])\<rparr>] [0x58, 0x62]
   \<and> (\<exists>wd' n. RegexpWriter_Write stdout_Write
                  \<lparr>rules = [\<lparr>rule_hue = New Red White, rule_FindAllIndex = (\<lambda>p. [(0, 1)])\<rparr>],
                   wrapped = sink_Write\<rparr> [0x58, 0x62] \<lparr>sink = [], stdout = []\<rparr>
                = Inr (wd', n, None)
         \<and> sink wd' = [[0x1B, 0x5B, 0x33, 0x31, 0x3B, 0x34, 0x37, 0x6D], [0x58],
                        [0x1B, 0x5B, 0x30, 0x3B, 0x30, 0x6D], [0x62]])"
proof -
  define r where "r = \<lparr>rule_hue = New Red White, rule_FindAllIndex = (\<lambda>p. [(0 :: nat, 1 :: nat)])\<rparr>"
  let ?p = "[0x58, 0x62 :: byte]"
  have s: "spans_ok [r] ?p" by (simp add: spans_ok_def r_def)
  from Write_sends_on_change [OF s, of "\<lparr>sink = [], stdout = []\<rparr>"]
  obtain hm rm wd' n where w: "Write_maps [r] ?p = Inr (hm, rm)"
    and x: "RegexpWriter_Write stdout_Write \<lparr>rules = [r], wrapped = sink_Write\<rparr> ?p \<lparr>sink = [], stdout = []\<rparr>
       = Inr (wd', n, None)"
    and y: "sink wd' = concat (map (sent_at [r] hm ?p) [0..<length ?p])"
    by auto
  have "Write_maps [r] ?p = Inr ([1, 0], [Some \<lparr>fg = 0, bg = 0\<rparr>, Some (New Red White)])"
    unfolding r_def by code_simp
  with w have hm: "hm = [1, 0]" by simp
  have "concat (map (sent_at [r] [1, 0] ?p) [0..<length ?p])
      = [[0x1B, 0x5B, 0x33, 0x31, 0x3B, 0x34, 0x37, 0x6D], [0x58],
         [0x1B, 0x5B, 0x30, 0x3B, 0x30, 0x6D], [0x62]]"
    unfolding r_def by code_simp
  with x y hm s show ?thesis unfolding r_def by auto
qed

end
